theory Spec2Isabelle
  imports Main "HOL-Library.Word" "HOL-Library.Sublist"
begin

section \<open>Code generation\<close>

text \<open>
  The generators draw bytes from \<^verbatim>\<open>crypto.randomBytes\<close>. The random source is an
  input of the model: a finite list of bytes, of which every call of
  \<^verbatim>\<open>randomBytes(n)\<close> takes the next \<open>n\<close>. A source that runs dry stands for a
  loop that has not ended yet; the functions below then return \<open>None\<close>.
\<close>

type_synonym byte = "8 word"

definition randomBytes :: "nat \<Rightarrow> byte list \<Rightarrow> (byte list \<times> byte list) option" where
  "randomBytes n src = (if length src < n then None else Some (take n src, drop n src))"

text \<open>
  The alphabet, the same string literal in every generator of the repository
  (\<^verbatim>\<open>const chars = 'ABCDEFGHJKLMNPQRSTUVWXYZ23456789'\<close>).
\<close>

definition chars :: string where
  "chars = ''ABCDEFGHJKLMNPQRSTUVWXYZ23456789''"

text \<open>
  \<^verbatim>\<open>generateCode(length = 12)\<close> of the background batch creation:
  \<^verbatim>\<open>for (i = 0; i < length; i++) code += chars[bytes[i] % chars.length]\<close>.
  The argument is the result of \<^verbatim>\<open>randomBytes(length)\<close>, one byte per position.
\<close>

definition generateCode :: "byte list \<Rightarrow> string" where
  "generateCode bytes = map (\<lambda>b. chars ! (unat b mod length chars)) bytes"

text \<open>
  The loop body of \<^verbatim>\<open>generateCodes\<close> in the create-batch and the scheduled
  generation functions: \<^verbatim>\<open>for (i = 0; i < 12; i++) code += chars[bytes[i] % 30]\<close>.
  The modulus is the literal 30.
\<close>

definition codeOfBytes :: "byte list \<Rightarrow> string" where
  "codeOfBytes bytes = map (\<lambda>b. chars ! (unat b mod 30)) bytes"

text \<open>
  A JavaScript \<^verbatim>\<open>Set\<close> of strings keeps its members in insertion order, and
  \<^verbatim>\<open>Array.from(set)\<close> returns them in that order: a list without repetitions.
\<close>

definition set_add :: "string list \<Rightarrow> string \<Rightarrow> string list" where
  "set_add s x = (if x \<in> set s then s else s @ [x])"

text \<open>
  \<^verbatim>\<open>generateCodes(qty)\<close>: \<^verbatim>\<open>while (set.size < qty) { bytes = randomBytes(12); ...; set.add(code) }\<close>.
  The loop has no bound of its own; it is bounded here by the random source.
\<close>

function generateCodes_loop :: "nat \<Rightarrow> string list \<Rightarrow> byte list \<Rightarrow> (string list \<times> byte list) option" where
  "generateCodes_loop qty s src =
     (if length s < qty then
        (case randomBytes 12 src of
           None \<Rightarrow> None
         | Some (bytes, src') \<Rightarrow> generateCodes_loop qty (set_add s (codeOfBytes bytes)) src')
      else Some (s, src))"
  by pat_completeness auto
termination
  by (relation "measure (\<lambda>(qty, s, src). length src)")
     (auto simp: randomBytes_def split: if_splits)

declare generateCodes_loop.simps [simp del]

definition generateCodes :: "nat \<Rightarrow> byte list \<Rightarrow> (string list \<times> byte list) option" where
  "generateCodes qty src = generateCodes_loop qty [] src"

section \<open>The datastore\<close>

text \<open>
  The store has three tables. Rows carry the columns the verification and generation
  functions read or write; \<^verbatim>\<open>qr_code_url\<close> (a function of the code alone) and the
  optional product columns (\<^verbatim>\<open>product_code\<close>, \<^verbatim>\<open>manufacturing_date\<close>,
  \<^verbatim>\<open>expiring_date\<close>, \<^verbatim>\<open>notes\<close>) are left out. Identifiers and timestamps are
  natural numbers. A table is the list of its rows in insertion order, which is also
  the \<^verbatim>\<open>created_at\<close> order.
\<close>

datatype code_status = Active | Verified | Flagged | Expired

datatype batch_status = Generating | Complete | BatchActive

datatype result = Success | Duplicate | Invalid

record code_row =
  c_code :: string
  c_batch_id :: nat
  c_manufacturer_id :: nat
  c_status :: code_status
  c_verified_at :: "nat option"
  c_verification_method :: "string option"

record batch_row =
  b_id :: nat
  b_batch_id :: string
  b_manufacturer_id :: nat
  b_product_name :: string
  b_product_category :: string
  b_quantity :: nat
  b_codes_generated :: nat
  b_status :: batch_status

type_synonym location = "string \<times> string \<times> string"

record verification_row =
  v_code :: string
  v_method :: string
  v_result :: result
  v_ip_address :: string
  v_ip_location :: "location option"
  v_manufacturer_id :: "nat option"
  v_batch_id :: "nat option"

record db =
  codes :: "code_row list"
  batches :: "batch_row list"
  verifications :: "verification_row list"

definition empty_db :: db where
  "empty_db = \<lparr>codes = [], batches = [], verifications = []\<rparr>"

text \<open>
  Every storage call of the supabase client returns \<^verbatim>\<open>{ data, error }\<close> and never
  throws. Each operation below takes a flag \<open>fault\<close>: when set, the call returns an
  error and leaves the table as it was (a transient storage error).

  \<^verbatim>\<open>supabase.from('codes').insert(rows)\<close> is one statement under the constraint
  \<^verbatim>\<open>ALTER TABLE codes ADD CONSTRAINT codes_code_unique UNIQUE (code)\<close>: it is rejected
  as a whole when a new value repeats a stored one or another new one. The first
  component of the result is \<^verbatim>\<open>error\<close> being set.
\<close>

definition codes_insert :: "bool \<Rightarrow> code_row list \<Rightarrow> db \<Rightarrow> bool \<times> db" where
  "codes_insert fault rows d =
     (if fault \<or> \<not> distinct (map c_code rows)
         \<or> list_ex (\<lambda>r. c_code r \<in> set (map c_code (codes d))) rows
      then (True, d)
      else (False, d\<lparr>codes := codes d @ rows\<rparr>))"

text \<open>
  \<^verbatim>\<open>from('batches').insert([row]).select().single()\<close>: the store assigns the
  primary key \<^verbatim>\<open>id\<close>. Rows are never deleted, so the number of rows is a fresh key.
\<close>

definition batches_insert :: "bool \<Rightarrow> batch_row \<Rightarrow> db \<Rightarrow> batch_row option \<times> db" where
  "batches_insert fault row d =
     (if fault then (None, d)
      else (let row' = row\<lparr>b_id := length (batches d)\<rparr>
            in (Some row', d\<lparr>batches := batches d @ [row']\<rparr>)))"

text \<open>
  \<^verbatim>\<open>from('batches').update({ codes_generated, status }).eq('id', id)\<close>. No caller
  reads the error of this call.
\<close>

definition update_batch :: "bool \<Rightarrow> nat \<Rightarrow> nat \<Rightarrow> batch_status \<Rightarrow> db \<Rightarrow> db" where
  "update_batch fault i n st d =
     (if fault then d
      else d\<lparr>batches :=
             map (\<lambda>b. if b_id b = i then b\<lparr>b_codes_generated := n, b_status := st\<rparr> else b)
                 (batches d)\<rparr>)"

text \<open>
  \<^verbatim>\<open>from('batches').update({ codes_generated }).eq('id', id)\<close> of the background
  generation, which writes the count alone.
\<close>

definition update_batch_count :: "bool \<Rightarrow> nat \<Rightarrow> nat \<Rightarrow> db \<Rightarrow> db" where
  "update_batch_count fault i n d =
     (if fault then d
      else d\<lparr>batches :=
             map (\<lambda>b. if b_id b = i then b\<lparr>b_codes_generated := n\<rparr> else b) (batches d)\<rparr>)"

text \<open>
  \<^verbatim>\<open>from('codes').select(...).eq('code', c).single()\<close>: a row when exactly one
  matches, an error otherwise.
\<close>

definition codes_single :: "bool \<Rightarrow> string \<Rightarrow> db \<Rightarrow> code_row option" where
  "codes_single fault c d =
     (if fault then None
      else (case filter (\<lambda>r. c_code r = c) (codes d) of [r] \<Rightarrow> Some r | _ \<Rightarrow> None))"

text \<open>
  The conditional update of the verification function:
  \<^verbatim>\<open>update({ status: 'verified', verified_at: now, verification_method: 'qr' })
     .eq('code', c).eq('status', 'active')\<close>.
  The result is the error flag, the number of rows the statement changed, and the store.
\<close>

definition mark_verified :: "nat \<Rightarrow> code_row \<Rightarrow> code_row" where
  "mark_verified now r =
     r\<lparr>c_status := Verified, c_verified_at := Some now, c_verification_method := Some ''qr''\<rparr>"

definition codes_update_if_active :: "bool \<Rightarrow> string \<Rightarrow> nat \<Rightarrow> db \<Rightarrow> bool \<times> nat \<times> db" where
  "codes_update_if_active fault c now d =
     (if fault then (True, 0, d)
      else (False,
            length (filter (\<lambda>r. c_code r = c \<and> c_status r = Active) (codes d)),
            d\<lparr>codes := map (\<lambda>r. if c_code r = c \<and> c_status r = Active
                                   then mark_verified now r else r) (codes d)\<rparr>))"

text \<open>\<^verbatim>\<open>from('verifications').insert([row])\<close>; no caller reads its error.\<close>

definition verifications_insert :: "bool \<Rightarrow> verification_row \<Rightarrow> db \<Rightarrow> db" where
  "verifications_insert fault row d =
     (if fault then d else d\<lparr>verifications := verifications d @ [row]\<rparr>)"

section \<open>Bulk insertion\<close>

definition SYNC_LIMIT :: nat where "SYNC_LIMIT = 10000"
definition CHUNK_SIZE :: nat where "CHUNK_SIZE = 1000"
definition CODES_PER_RUN :: nat where "CODES_PER_RUN = 10000"

text \<open>
  \<^verbatim>\<open>for (i = 0; i < records.length; i += n) chunks.push(records.slice(i, i + n))\<close>,
  for the positive constants \<open>n\<close> of the source (1000 and 500).
\<close>

function chunks_of :: "nat \<Rightarrow> 'a list \<Rightarrow> 'a list list" where
  "chunks_of n xs = (if n = 0 \<or> xs = [] then [] else take n xs # chunks_of n (drop n xs))"
  by pat_completeness auto
termination
  by (relation "measure (\<lambda>(n, xs). length xs)") auto

declare chunks_of.simps [simp del]

text \<open>\<^verbatim>\<open>buildRecords(codes, batchUUID, manufacturerId, siteUrl)\<close>.\<close>

definition buildRecords :: "string list \<Rightarrow> nat \<Rightarrow> nat \<Rightarrow> code_row list" where
  "buildRecords cs batchUUID manufacturerId =
     map (\<lambda>c. \<lparr>c_code = c, c_batch_id = batchUUID, c_manufacturer_id = manufacturerId,
                c_status = Active, c_verified_at = None, c_verification_method = None\<rparr>) cs"

text \<open>
  Fault flags are consumed one per storage call; a list that has run out means no fault.
\<close>

definition next_fault :: "bool list \<Rightarrow> bool" where
  "next_fault fs = (case fs of [] \<Rightarrow> False | f # _ \<Rightarrow> f)"

text \<open>
  \<^verbatim>\<open>insertCodes(records)\<close> issues one insert per chunk, eight at a time under
  \<^verbatim>\<open>Promise.all\<close>, and adds up the sizes of the chunks that returned no error. The
  model performs the inserts in index order. \<open>insert_chunks\<close> gives, for every chunk, the
  number of rows it added and the store right after it; \<open>insertCodes\<close> is the sum and
  the last store.
\<close>

fun insert_chunks :: "bool list \<Rightarrow> code_row list list \<Rightarrow> db \<Rightarrow> (nat \<times> db) list" where
  "insert_chunks fs [] d = []"
| "insert_chunks fs (c # cs) d =
     (case codes_insert (next_fault fs) c d of
        (err, d') \<Rightarrow> ((if err then 0 else length c), d') # insert_chunks (tl fs) cs d')"

definition final :: "db \<Rightarrow> db list \<Rightarrow> db" where
  "final d tr = last (d # tr)"

definition insertCodes :: "bool list \<Rightarrow> code_row list \<Rightarrow> db \<Rightarrow> nat \<times> db" where
  "insertCodes fs records d =
     (let tr = insert_chunks fs (chunks_of CHUNK_SIZE records) d
      in (sum_list (map fst tr), final d (map snd tr)))"

section \<open>Requests and responses\<close>

text \<open>
  Strings are ASCII. \<^verbatim>\<open>String.prototype.trim\<close> removes white space at both ends,
  \<^verbatim>\<open>toUpperCase\<close> maps the letters a to z.
\<close>

definition is_space :: "char \<Rightarrow> bool" where
  "is_space c = (c \<in> set [CHR '' '', CHR 0x09, CHR 0x0A, CHR 0x0B, CHR 0x0C, CHR 0x0D])"

definition trim :: "string \<Rightarrow> string" where
  "trim s = rev (dropWhile is_space (rev (dropWhile is_space s)))"

definition toUpperCase :: "string \<Rightarrow> string" where
  "toUpperCase s =
     map (\<lambda>c. case map_of (zip ''abcdefghijklmnopqrstuvwxyz'' ''ABCDEFGHIJKLMNOPQRSTUVWXYZ'') c of
                None \<Rightarrow> c | Some u \<Rightarrow> u) s"

datatype http_method = GET | POST | OPTIONS | OtherMethod

record created_batch =
  bi_id :: nat
  bi_batch_id :: string
  bi_product_name :: "string option"
  bi_quantity :: nat
  bi_codes_generated :: nat
  bi_status :: batch_status

record tick_result =
  tr_batch_id :: string
  tr_generated :: nat
  tr_total :: nat
  tr_target :: nat
  tr_complete :: bool

record product_info =
  pi_productName :: "string option"
  pi_batchId :: "string option"
  pi_verifiedAt :: "nat option"

text \<open>
  Response bodies, without their display messages: an error, the \<^verbatim>\<open>batch\<close> object of
  a created batch, the \<^verbatim>\<open>processed\<close> count of an idle scheduler run, the summary
  \<^verbatim>\<open>{ processed, totalGenerated, results }\<close> of a scheduler run, and the
  \<^verbatim>\<open>{ success, status, productInfo }\<close> of a verification, with the product name,
  the batch name and the time of verification of its \<^verbatim>\<open>productInfo\<close>.
\<close>

datatype body =
    Empty
  | Error string
  | Created created_batch
  | NothingToProcess nat
  | Summary nat nat "tick_result list"
  | Verification bool result "product_info option"

record response =
  statusCode :: nat
  body :: body

definition respond :: "nat \<Rightarrow> body \<Rightarrow> response" where
  "respond sc b = \<lparr>statusCode = sc, body = b\<rparr>"

section \<open>Batch creation\<close>

text \<open>
  The create-batch function (\<^verbatim>\<open>exports.handler\<close> beside \<^verbatim>\<open>SYNC_LIMIT\<close>).
  \<open>cr_auth\<close> is \<^verbatim>\<open>verifyToken(event.headers.authorization)\<close>: the user id of the
  decoded token, or \<open>None\<close>. \<open>cr_body\<close> is \<^verbatim>\<open>JSON.parse(event.body)\<close>, \<open>None\<close>
  when it throws. An absent or empty string field is the empty string. \<open>QAbsent\<close> is a
  falsy \<^verbatim>\<open>quantity\<close>, \<open>QNotANumber\<close> a truthy one that \<^verbatim>\<open>parseInt\<close> maps to
  NaN, \<open>QNumber q\<close> a truthy one with \<^verbatim>\<open>parseInt(quantity) = q\<close>.
\<close>

datatype quantity_field = QAbsent | QNotANumber | QNumber int

record create_body =
  cb_productName :: string
  cb_productCategory :: string
  cb_quantity :: quantity_field
  cb_customBatchId :: string

record create_req =
  cr_method :: http_method
  cr_auth :: "nat option"
  cr_body :: "create_body option"

text \<open>
  What the environment decides in one invocation: the generated batch name
  (\<^verbatim>\<open>BN\<close>, the date and a random suffix), the random bytes, and which storage calls
  fail.
\<close>

record create_env =
  ce_auto_batch_id :: string
  ce_entropy :: "byte list"
  ce_lookup_fault :: bool
  ce_batch_insert_fault :: bool
  ce_chunk_faults :: "bool list"
  ce_update_fault :: bool

text \<open>The test \<^verbatim>\<open>/^[A-Za-z0-9\-_]+$/\<close> on the trimmed, non-empty custom batch id.\<close>

definition id_char :: "char \<Rightarrow> bool" where
  "id_char c =
     (c \<in> set ''ABCDEFGHIJKLMNOPQRSTUVWXYZabcdefghijklmnopqrstuvwxyz0123456789-_'')"

text \<open>
  \<^verbatim>\<open>from('batches').select('id').eq('batch_id', batchId).maybeSingle()\<close>: data is
  a row when exactly one matches.
\<close>

definition batch_id_exists :: "bool \<Rightarrow> string \<Rightarrow> db \<Rightarrow> bool" where
  "batch_id_exists fault t d =
     (\<not> fault \<and> length (filter (\<lambda>b. b_batch_id b = t) (batches d)) = 1)"

definition resolveBatchId :: "create_env \<Rightarrow> create_body \<Rightarrow> db \<Rightarrow> response + string" where
  "resolveBatchId e b d =
     (let batchId = trim (cb_customBatchId b) in
      if batchId \<noteq> [] then
        (if \<not> list_all id_char batchId then
           Inl (respond 400 (Error ''Batch ID can only contain letters, numbers, dashes and underscores''))
         else if batch_id_exists (ce_lookup_fault e) batchId d then
           Inl (respond 400 (Error (''Batch ID '' @ [CHR 0x22] @ batchId @ [CHR 0x22]
                  @ '' already exists. Use a different ID or leave empty to auto-generate.'')))
         else Inr batchId)
      else Inr (ce_auto_batch_id e))"

text \<open>
  A handler returns its response, or \<open>None\<close> when it does not return, and the list of
  the stores it leaves behind, one after every storage write, in order. \<open>final\<close> is the
  store at the end.

  The part of the handler after the batch row is written: generate
  \<^verbatim>\<open>Math.min(qty, SYNC_LIMIT)\<close> codes, insert them, write
  \<^verbatim>\<open>codes_generated: inserted\<close> and the status once, respond 201. The call of
  \<open>insertCodes\<close> is written out (\<open>inserted\<close> and \<open>d1\<close> are its two results), so that
  the stores between the chunk writes stay in the list.
\<close>

definition createBatch_generate :: "create_env \<Rightarrow> nat \<Rightarrow> create_body \<Rightarrow> nat \<Rightarrow> string \<Rightarrow> batch_row \<Rightarrow> db
    \<Rightarrow> response option \<times> db list" where
  "createBatch_generate e userId b qty batchId batch d =
     (let initialBatch = min qty SYNC_LIMIT in
      case generateCodes initialBatch (ce_entropy e) of
        None \<Rightarrow> (None, [])
      | Some (cs, _) \<Rightarrow>
          (let records = buildRecords cs (b_id batch) userId;
               tr = insert_chunks (ce_chunk_faults e) (chunks_of CHUNK_SIZE records) d;
               inserted = sum_list (map fst tr);
               d1 = final d (map snd tr);
               isComplete = (inserted \<ge> qty);
               st = (if isComplete then Complete else Generating);
               d2 = update_batch (ce_update_fault e) (b_id batch) inserted st d1
           in (Some (respond 201 (Created
                 \<lparr>bi_id = b_id batch, bi_batch_id = batchId,
                  bi_product_name = Some (cb_productName b), bi_quantity = qty,
                  bi_codes_generated = inserted, bi_status = st\<rparr>)),
               map snd tr @ [d2])))"

definition createBatch_store :: "create_env \<Rightarrow> nat \<Rightarrow> create_body \<Rightarrow> nat \<Rightarrow> db
    \<Rightarrow> response option \<times> db list" where
  "createBatch_store e userId b qty d =
     (case resolveBatchId e b d of
        Inl resp \<Rightarrow> (Some resp, [])
      | Inr batchId \<Rightarrow>
         (case batches_insert (ce_batch_insert_fault e)
            \<lparr>b_id = 0, b_batch_id = batchId, b_manufacturer_id = userId,
             b_product_name = cb_productName b,
             b_product_category = cb_productCategory b,
             b_quantity = qty, b_codes_generated = 0, b_status = Generating\<rparr> d of
            (None, _) \<Rightarrow> (Some (respond 500 (Error ''Failed to create batch'')), [])
          | (Some batch, d0) \<Rightarrow>
              (case createBatch_generate e userId b qty batchId batch d0 of
                 (resp, tr) \<Rightarrow> (resp, d0 # tr))))"

definition createBatch :: "create_env \<Rightarrow> create_req \<Rightarrow> db \<Rightarrow> response option \<times> db list" where
  "createBatch e r d =
     (if cr_method r = OPTIONS then (Some (respond 200 Empty), [])
      else if cr_method r \<noteq> POST then (Some (respond 405 (Error ''Method not allowed'')), [])
      else case cr_auth r of
        None \<Rightarrow> (Some (respond 401 (Error ''Unauthorized'')), [])
      | Some userId \<Rightarrow>
         (case cr_body r of
            None \<Rightarrow> (Some (respond 500 (Error ''Server error'')), [])
          | Some b \<Rightarrow>
             (if cb_productName b = [] \<or> cb_productCategory b = [] \<or> cb_quantity b = QAbsent then
                (Some (respond 400
                   (Error ''Missing required fields: productName, productCategory, quantity'')), [])
              else
                (case cb_quantity b of
                   QNumber q \<Rightarrow>
                     (if q < 1 \<or> q > 100000 then
                        (Some (respond 400 (Error ''Quantity must be between 1 and 100,000'')), [])
                      else createBatch_store e userId b (nat q) d)
                 | _ \<Rightarrow>
                     (Some (respond 400 (Error ''Quantity must be between 1 and 100,000'')), [])))))"

section \<open>Scheduled generation\<close>

text \<open>
  The scheduled function. Per processed batch the environment gives the random bytes and
  the faults of its storage calls; a run that has no entry left for a batch gets no
  bytes and no faults.
\<close>

record batch_env =
  be_entropy :: "byte list"
  be_chunk_faults :: "bool list"
  be_update_fault :: bool

record tick_env =
  te_fetch_fault :: bool
  te_batches :: "batch_env list"

definition next_env :: "batch_env list \<Rightarrow> batch_env" where
  "next_env es =
     (case es of [] \<Rightarrow> \<lparr>be_entropy = [], be_chunk_faults = [], be_update_fault = False\<rparr>
               | e # _ \<Rightarrow> e)"

text \<open>
  The body of \<^verbatim>\<open>for (const batch of incompleteBatches)\<close>. \<open>batch\<close> is the row as
  fetched at the start of the run. Nothing in the \<^verbatim>\<open>try\<close> block throws, so its
  \<^verbatim>\<open>catch\<close> has no branch here.
\<close>

definition process_batch :: "batch_env \<Rightarrow> batch_row \<Rightarrow> db \<Rightarrow> (tick_result \<times> db list) option" where
  "process_batch e batch d =
     (let remaining = b_quantity batch - b_codes_generated batch;
          toGenerate = min CODES_PER_RUN remaining
      in case generateCodes toGenerate (be_entropy e) of
        None \<Rightarrow> None
      | Some (cs, _) \<Rightarrow>
          (let records = buildRecords cs (b_id batch) (b_manufacturer_id batch);
               tr = insert_chunks (be_chunk_faults e) (chunks_of CHUNK_SIZE records) d;
               inserted = sum_list (map fst tr);
               d1 = final d (map snd tr);
               newTotal = b_codes_generated batch + inserted;
               isComplete = (newTotal \<ge> b_quantity batch);
               d2 = update_batch (be_update_fault e) (b_id batch) newTotal
                      (if isComplete then Complete else Generating) d1
           in Some (\<lparr>tr_batch_id = b_batch_id batch, tr_generated = inserted,
                     tr_total = newTotal, tr_target = b_quantity batch,
                     tr_complete = isComplete\<rparr>,
                    map snd tr @ [d2])))"

text \<open>
  The loop over the selected batches. A batch whose generation does not return ends the
  run without a response.
\<close>

fun process_batches :: "batch_env list \<Rightarrow> batch_row list \<Rightarrow> db \<Rightarrow> tick_result list option \<times> db list" where
  "process_batches es [] d = (Some [], [])"
| "process_batches es (batch # bs) d =
     (case process_batch (next_env es) batch d of
        None \<Rightarrow> (None, [])
      | Some (res, tr) \<Rightarrow>
          (case process_batches (tl es) bs (final d tr) of
             (rest, tr') \<Rightarrow> (map_option ((#) res) rest, tr @ tr')))"

definition scheduledGeneration :: "tick_env \<Rightarrow> db \<Rightarrow> response option \<times> db list" where
  "scheduledGeneration e d =
     (if te_fetch_fault e then
        (Some (respond 500 (Error ''Failed to fetch incomplete batches'')), [])
      else
        (let allBatches = filter (\<lambda>b. b_status b = Generating) (batches d) in
         if allBatches = [] then (Some (respond 200 (NothingToProcess 0)), [])
         else
          (let incompleteBatches =
                 take 10 (filter (\<lambda>b. b_codes_generated b < b_quantity b) allBatches) in
           if incompleteBatches = [] then (Some (respond 200 (NothingToProcess 0)), [])
           else
            (case process_batches (te_batches e) incompleteBatches d of
               (None, tr) \<Rightarrow> (None, tr)
             | (Some results, tr) \<Rightarrow>
                 (Some (respond 200 (Summary (length incompleteBatches)
                          (sum_list (map tr_generated results)) results)), tr)))))"

section \<open>Batch creation with background generation\<close>

text \<open>
  The other batch creation function of the repository writes the batch row with status
  \<^verbatim>\<open>'active'\<close>, starts \<^verbatim>\<open>generateCodesInBackground\<close> without awaiting it, and
  responds at once. Its environment: the random bytes, and the faults of the storage
  calls, one flag per call in the order of the calls (one select per chunk of 5000, one
  insert and one progress update per sub-chunk of 500).
\<close>

record bg_env =
  bg_batch_id :: string
  bg_entropy :: "byte list"
  bg_batch_insert_fault :: bool
  bg_select_faults :: "bool list"
  bg_insert_faults :: "bool list"
  bg_update_faults :: "bool list"

text \<open>
  \<^verbatim>\<open>while (codesSet.size < currentChunkSize && attempts < maxAttempts)
     { codesSet.add(generateCode()); attempts++ }\<close>
\<close>

function candidates_loop :: "nat \<Rightarrow> nat \<Rightarrow> nat \<Rightarrow> string list \<Rightarrow> byte list
    \<Rightarrow> (string list \<times> byte list) option" where
  "candidates_loop n maxAttempts attempts s src =
     (if length s < n \<and> attempts < maxAttempts then
        (case randomBytes 12 src of
           None \<Rightarrow> None
         | Some (bytes, src') \<Rightarrow>
             candidates_loop n maxAttempts (attempts + 1) (set_add s (generateCode bytes)) src')
      else Some (s, src))"
  by pat_completeness auto
termination
  by (relation "measure (\<lambda>(n, maxAttempts, attempts, s, src). maxAttempts - attempts)") auto

declare candidates_loop.simps [simp del]

text \<open>
  \<^verbatim>\<open>from('codes').select('code').in('code', codesArray)\<close>, the stored values among
  the candidates; \<^verbatim>\<open>existingCodes || []\<close> on an error.
\<close>

definition existing_codes :: "bool \<Rightarrow> string list \<Rightarrow> db \<Rightarrow> string list" where
  "existing_codes fault codesArray d =
     (if fault then [] else filter (\<lambda>c. c \<in> set codesArray) (map c_code (codes d)))"

text \<open>
  \<^verbatim>\<open>while (finalCodes.length < currentChunkSize) { code = generateCode();
     if (!finalCodes.includes(code) && !existingCodeSet.has(code)) finalCodes.push(code) }\<close>
\<close>

function replace_loop :: "nat \<Rightarrow> string list \<Rightarrow> string list \<Rightarrow> byte list
    \<Rightarrow> (string list \<times> byte list) option" where
  "replace_loop n existing finalCodes src =
     (if length finalCodes < n then
        (case randomBytes 12 src of
           None \<Rightarrow> None
         | Some (bytes, src') \<Rightarrow>
             replace_loop n existing
               (if generateCode bytes \<notin> set finalCodes \<and> generateCode bytes \<notin> set existing
                then finalCodes @ [generateCode bytes] else finalCodes) src')
      else Some (finalCodes, src))"
  by pat_completeness auto
termination
  by (relation "measure (\<lambda>(n, existing, finalCodes, src). length src)")
     (auto simp: randomBytes_def split: if_splits)

declare replace_loop.simps [simp del]

text \<open>
  One pass of the inner loop \<^verbatim>\<open>for (i = 0; i < codeRecords.length; i += 500)\<close>: the
  insert of a sub-chunk and, when it returned no error, \<^verbatim>\<open>totalGenerated += length\<close>
  and the write of \<^verbatim>\<open>codes_generated: totalGenerated\<close>.
\<close>

record pass =
  p_inserted :: bool
  p_update_fault :: bool
  p_total :: nat
  p_after_insert :: db
  p_after :: db

fun insert_subchunks :: "bool list \<Rightarrow> bool list \<Rightarrow> nat \<Rightarrow> nat \<Rightarrow> code_row list list \<Rightarrow> db
    \<Rightarrow> pass list" where
  "insert_subchunks ifs ufs batchUUID totalGenerated [] d = []"
| "insert_subchunks ifs ufs batchUUID totalGenerated (c # cs) d =
     (case codes_insert (next_fault ifs) c d of
        (insertError, d1) \<Rightarrow>
          (let total = (if insertError then totalGenerated else totalGenerated + length c);
               d2 = (if insertError then d1
                     else update_batch_count (next_fault ufs) batchUUID total d1)
           in \<lparr>p_inserted = \<not> insertError, p_update_fault = next_fault ufs, p_total = total,
               p_after_insert = d1, p_after = d2\<rparr>
              # insert_subchunks (tl ifs) (tl ufs) batchUUID total cs d2))"

text \<open>The variables the outer loop carries from one chunk of 5000 to the next.\<close>

record bg_state =
  s_entropy :: "byte list"
  s_select_faults :: "bool list"
  s_insert_faults :: "bool list"
  s_update_faults :: "bool list"
  s_totalGenerated :: nat
  s_db :: db
  s_passes :: "pass list"

definition last_pass_db :: "db \<Rightarrow> pass list \<Rightarrow> db" where
  "last_pass_db d ps = (if ps = [] then d else p_after (last ps))"

definition last_pass_total :: "nat \<Rightarrow> pass list \<Rightarrow> nat" where
  "last_pass_total n ps = (if ps = [] then n else p_total (last ps))"

text \<open>The body of \<^verbatim>\<open>for (offset = 0; offset < quantity; offset += chunkSize)\<close>.\<close>

definition bg_chunk :: "nat \<Rightarrow> nat \<Rightarrow> nat \<Rightarrow> bg_state \<Rightarrow> bg_state option" where
  "bg_chunk currentChunkSize batchUUID userId s =
     (case candidates_loop currentChunkSize (currentChunkSize * 3) 0 [] (s_entropy s) of
        None \<Rightarrow> None
      | Some (codesArray, src1) \<Rightarrow>
          (let existing = existing_codes (next_fault (s_select_faults s)) codesArray (s_db s);
               finalCodes0 = filter (\<lambda>c. c \<notin> set existing) codesArray
           in case replace_loop currentChunkSize existing finalCodes0 src1 of
                None \<Rightarrow> None
              | Some (finalCodes, src2) \<Rightarrow>
                  (let codeRecords = buildRecords finalCodes batchUUID userId;
                       subs = chunks_of 500 codeRecords;
                       ps = insert_subchunks (s_insert_faults s) (s_update_faults s) batchUUID
                              (s_totalGenerated s) subs (s_db s)
                   in Some \<lparr>s_entropy = src2,
                            s_select_faults = tl (s_select_faults s),
                            s_insert_faults = drop (length subs) (s_insert_faults s),
                            s_update_faults = drop (length subs) (s_update_faults s),
                            s_totalGenerated = last_pass_total (s_totalGenerated s) ps,
                            s_db = last_pass_db (s_db s) ps,
                            s_passes = s_passes s @ ps\<rparr>)))"

text \<open>
  The outer loop. A chunk whose loops do not come to an end (the random source runs dry)
  stops the run where it stands: the second component is \<open>False\<close>.
\<close>

function bg_loop :: "nat \<Rightarrow> nat \<Rightarrow> nat \<Rightarrow> nat \<Rightarrow> bg_state \<Rightarrow> bg_state \<times> bool" where
  "bg_loop quantity batchUUID userId offset s =
     (if offset < quantity then
        (case bg_chunk (min 5000 (quantity - offset)) batchUUID userId s of
           None \<Rightarrow> (s, False)
         | Some s' \<Rightarrow> bg_loop quantity batchUUID userId (offset + 5000) s')
      else (s, True))"
  by pat_completeness auto
termination
  by (relation "measure (\<lambda>(quantity, batchUUID, userId, offset, s). quantity - offset)") auto

declare bg_loop.simps [simp del]

definition generateCodesInBackground :: "bg_env \<Rightarrow> batch_row \<Rightarrow> nat \<Rightarrow> nat \<Rightarrow> db \<Rightarrow> bg_state \<times> bool" where
  "generateCodesInBackground e batch quantity userId d =
     bg_loop quantity (b_id batch) userId 0
       \<lparr>s_entropy = bg_entropy e, s_select_faults = bg_select_faults e,
        s_insert_faults = bg_insert_faults e, s_update_faults = bg_update_faults e,
        s_totalGenerated = 0, s_db = d, s_passes = []\<rparr>"

definition pass_stores :: "pass list \<Rightarrow> db list" where
  "pass_stores ps =
     concat (map (\<lambda>p. if p_inserted p then [p_after_insert p, p_after p] else [p_after_insert p]) ps)"

text \<open>
  The handler. \<^verbatim>\<open>quantity\<close> is used as the request gives it, here a JSON integer
  (\<open>QNumber\<close>) or a falsy value (\<open>QAbsent\<close>); a value that is not a number passes the
  range test and is refused by the numeric column of the store. The response does not
  wait for the generation, and its \<^verbatim>\<open>batch\<close> object has no product name.
\<close>

definition createBatchBackground :: "bg_env \<Rightarrow> create_req \<Rightarrow> db \<Rightarrow> response option \<times> db list" where
  "createBatchBackground e r d =
     (if cr_method r \<noteq> POST then (Some (respond 405 (Error ''Method not allowed'')), [])
      else case cr_auth r of
        None \<Rightarrow> (Some (respond 401 (Error ''Unauthorized'')), [])
      | Some userId \<Rightarrow>
         (case cr_body r of
            None \<Rightarrow> (Some (respond 500 (Error ''Server error'')), [])
          | Some b \<Rightarrow>
             (if cb_productName b = [] \<or> cb_productCategory b = [] \<or> cb_quantity b = QAbsent then
                (Some (respond 400 (Error ''Missing required fields'')), [])
              else
                (case cb_quantity b of
                   QNumber q \<Rightarrow>
                     (if q < 1 \<or> q > 100000 then
                        (Some (respond 400 (Error ''Quantity must be between 1 and 100,000'')), [])
                      else
                        (case batches_insert (bg_batch_insert_fault e)
                           \<lparr>b_id = 0, b_batch_id = bg_batch_id e, b_manufacturer_id = userId,
                            b_product_name = cb_productName b,
                            b_product_category = cb_productCategory b,
                            b_quantity = nat q, b_codes_generated = 0,
                            b_status = BatchActive\<rparr> d of
                           (None, _) \<Rightarrow> (Some (respond 500 (Error ''Failed to create batch'')), [])
                         | (Some batch, d0) \<Rightarrow>
                             (Some (respond 201 (Created
                                \<lparr>bi_id = b_id batch, bi_batch_id = b_batch_id batch,
                                 bi_product_name = None, bi_quantity = nat q,
                                 bi_codes_generated = 0, bi_status = Generating\<rparr>)),
                              d0 # pass_stores (s_passes (fst
                                 (generateCodesInBackground e batch (nat q) userId d0))))))
                 | _ \<Rightarrow> (Some (respond 500 (Error ''Failed to create batch'')), [])))))"

section \<open>Verification\<close>

text \<open>
  The verification function (\<^verbatim>\<open>exports.handler\<close> beside \<^verbatim>\<open>getIpLocation\<close>).
  A GET request carries the code in the query string, a POST request in its JSON body:
  \<open>BodyUnparsable\<close> when \<^verbatim>\<open>JSON.parse(event.body).code\<close> throws, \<open>BodyCodeOther\<close> for
  a truthy value that is not a string (its \<^verbatim>\<open>.trim()\<close> throws). Absent header values
  are empty strings.
\<close>

datatype body_code = BodyUnparsable | BodyCodeAbsent | BodyCodeOther | BodyCode string

record verify_req =
  vr_method :: http_method
  vr_query_code :: "string option"
  vr_body_code :: body_code
  vr_forwarded_for :: string
  vr_real_ip :: string

text \<open>
  The environment of one call: the clock, the answer of the geolocation service
  (\<open>None\<close> for every failure of the lookup), and the faults of the three storage calls.
\<close>

record verify_env =
  ve_now :: nat
  ve_geo :: "location option"
  ve_lookup_fault :: bool
  ve_update_fault :: bool
  ve_log_fault :: bool

definition requested_code :: "verify_req \<Rightarrow> body_code" where
  "requested_code r =
     (if vr_method r = GET
      then (case vr_query_code r of None \<Rightarrow> BodyCodeAbsent | Some s \<Rightarrow> BodyCode s)
      else vr_body_code r)"

text \<open>
  \<^verbatim>\<open>event.headers['x-forwarded-for'] || event.headers['x-real-ip'] || 'unknown'\<close>
\<close>

definition ipAddress :: "verify_req \<Rightarrow> string" where
  "ipAddress r =
     (if vr_forwarded_for r \<noteq> [] then vr_forwarded_for r
      else if vr_real_ip r \<noteq> [] then vr_real_ip r
      else ''unknown'')"

text \<open>
  \<^verbatim>\<open>getIpLocation(ipAddress)\<close>: the first address of a comma separated list; no
  lookup for an empty, unknown or loopback address; otherwise what the service answers.
\<close>

definition getIpLocation :: "location option \<Rightarrow> string \<Rightarrow> location option" where
  "getIpLocation fetched ip =
     (let cleanIp = (if CHR '','' \<in> set ip then trim (takeWhile (\<lambda>c. c \<noteq> CHR '','') ip) else ip)
      in if cleanIp = [] \<or> cleanIp = ''unknown'' \<or> cleanIp = ''::1'' \<or> take 4 cleanIp = ''127.''
         then None else fetched)"

text \<open>
  The lookup \<^verbatim>\<open>from('codes').select('*, batches (...)').eq('code', c).single()\<close>: the
  code row together with the batch its \<^verbatim>\<open>batch_id\<close> refers to, if any.
\<close>

definition lookup_code :: "bool \<Rightarrow> string \<Rightarrow> db \<Rightarrow> (code_row \<times> batch_row option) option" where
  "lookup_code fault c d =
     (case codes_single fault c d of
        None \<Rightarrow> None
      | Some r \<Rightarrow> Some (r, find (\<lambda>b. b_id b = c_batch_id r) (batches d)))"

definition log_row :: "verify_req \<Rightarrow> verify_env \<Rightarrow> string \<Rightarrow> result \<Rightarrow> code_row option \<Rightarrow> verification_row" where
  "log_row r e c res rec =
     \<lparr>v_code = c, v_method = ''qr'', v_result = res, v_ip_address = ipAddress r,
      v_ip_location = getIpLocation (ve_geo e) (ipAddress r),
      v_manufacturer_id = map_option c_manufacturer_id rec,
      v_batch_id = map_option c_batch_id rec\<rparr>"

definition productInfo :: "batch_row option \<Rightarrow> nat option \<Rightarrow> product_info" where
  "productInfo b t =
     \<lparr>pi_productName = map_option b_product_name b, pi_batchId = map_option b_batch_id b,
      pi_verifiedAt = t\<rparr>"

text \<open>The branch \<^verbatim>\<open>if (lookupError || !codeRecord)\<close>.\<close>

definition verify_invalid :: "verify_env \<Rightarrow> verify_req \<Rightarrow> string \<Rightarrow> db \<Rightarrow> response \<times> db" where
  "verify_invalid e r c d =
     (respond 200 (Verification False Invalid None),
      verifications_insert (ve_log_fault e) (log_row r e c Invalid None) d)"

text \<open>The branch \<^verbatim>\<open>if (codeRecord.status === 'verified')\<close>.\<close>

definition verify_duplicate :: "verify_env \<Rightarrow> verify_req \<Rightarrow> string \<Rightarrow> code_row \<times> batch_row option \<Rightarrow> db
    \<Rightarrow> response \<times> db" where
  "verify_duplicate e r c rec d =
     (respond 200 (Verification False Duplicate
        (Some (productInfo (snd rec) (c_verified_at (fst rec))))),
      verifications_insert (ve_log_fault e) (log_row r e c Duplicate (Some (fst rec))) d)"

text \<open>
  The rest of the handler, for a record that was read with another status: the
  conditional update, of which only \<^verbatim>\<open>error\<close> is read and only to print it, the
  log row with \<^verbatim>\<open>result: 'success'\<close>, and the success response. \<open>rec\<close> is the record
  as read by the lookup; \<open>d\<close> is the store at the time of the update.
\<close>

definition verify_active :: "verify_env \<Rightarrow> verify_req \<Rightarrow> string \<Rightarrow> code_row \<times> batch_row option \<Rightarrow> db
    \<Rightarrow> response \<times> db" where
  "verify_active e r c rec d =
     (case codes_update_if_active (ve_update_fault e) c (ve_now e) d of
        (updateError, _, d1) \<Rightarrow>
          (respond 200 (Verification True Success (Some (productInfo (snd rec) (Some (ve_now e))))),
           verifications_insert (ve_log_fault e) (log_row r e c Success (Some (fst rec))) d1))"

text \<open>What the handler does with the record it has read.\<close>

definition verify_finish :: "verify_env \<Rightarrow> verify_req \<Rightarrow> string \<Rightarrow> (code_row \<times> batch_row option) option \<Rightarrow> db
    \<Rightarrow> response \<times> db" where
  "verify_finish e r c looked d =
     (case looked of
        None \<Rightarrow> verify_invalid e r c d
      | Some rec \<Rightarrow>
          if c_status (fst rec) = Verified then verify_duplicate e r c rec d
          else verify_active e r c rec d)"

definition verify :: "verify_env \<Rightarrow> verify_req \<Rightarrow> db \<Rightarrow> response \<times> db" where
  "verify e r d =
     (if vr_method r \<noteq> GET \<and> vr_method r \<noteq> POST then
        (respond 405 (Error ''Method not allowed''), d)
      else case requested_code r of
        BodyUnparsable \<Rightarrow> (respond 500 (Error ''Verification system error. Please try again.''), d)
      | BodyCodeAbsent \<Rightarrow> (respond 400 (Error ''Verification code required''), d)
      | BodyCodeOther \<Rightarrow> (respond 500 (Error ''Verification system error. Please try again.''), d)
      | BodyCode s \<Rightarrow>
          if s = [] then (respond 400 (Error ''Verification code required''), d)
          else (let cleanCode = toUpperCase (trim s)
                in verify_finish e r cleanCode (lookup_code (ve_lookup_fault e) cleanCode d) d))"

text \<open>The \<^verbatim>\<open>status\<close> field of a verification response.\<close>

definition outcome :: "response \<Rightarrow> result option" where
  "outcome resp = (case body resp of Verification _ res _ \<Rightarrow> Some res | _ \<Rightarrow> None)"

subsection \<open>Concurrent calls\<close>

text \<open>
  Verification requests run concurrently on one store. Every storage call is atomic; a
  call of the handler is the lookup, followed later by the rest (\<open>verify_finish\<close>). A
  schedule names, step by step, the call that moves next. All calls carry a well-formed
  request for the same clean code \<open>c\<close>.
\<close>

datatype call = Waiting | HasRead "(code_row \<times> batch_row option) option" | Returned response

definition call_step :: "verify_env \<Rightarrow> verify_req \<Rightarrow> string \<Rightarrow> call \<Rightarrow> db \<Rightarrow> call \<times> db" where
  "call_step e r c st d =
     (case st of
        Waiting \<Rightarrow> (HasRead (lookup_code (ve_lookup_fault e) c d), d)
      | HasRead looked \<Rightarrow> (case verify_finish e r c looked d of (resp, d') \<Rightarrow> (Returned resp, d'))
      | Returned resp \<Rightarrow> (Returned resp, d))"

fun run_schedule :: "verify_env \<Rightarrow> verify_req \<Rightarrow> string \<Rightarrow> nat list \<Rightarrow> call list \<times> db \<Rightarrow> call list \<times> db" where
  "run_schedule e r c [] s = s"
| "run_schedule e r c (i # sched) (calls, d) =
     (if i < length calls then
        (case call_step e r c (calls ! i) d of
           (st', d') \<Rightarrow> run_schedule e r c sched (calls[i := st'], d'))
      else run_schedule e r c sched (calls, d))"

definition returned_with :: "result \<Rightarrow> call \<Rightarrow> bool" where
  "returned_with res st = (case st of Returned resp \<Rightarrow> outcome resp = Some res | _ \<Rightarrow> False)"

section \<open>The document store\<close>

text \<open>
  The functions that write code documents: \<^verbatim>\<open>verifyCode(code, method, metadata)\<close> of
  the earlier verification workflow, \<^verbatim>\<open>flagCode\<close> of the code controller, and
  \<^verbatim>\<open>executeVerificationWorkflow\<close> with its \<^verbatim>\<open>markCodeAsVerified\<close>. A document's
  \<^verbatim>\<open>_id\<close> is its position in its collection; a reference to a position that does not
  exist populates to \<^verbatim>\<open>null\<close>. The store calls themselves are taken to succeed. Of a
  log document the model keeps the code, the references, the method, the result and the
  time. The code controller and \<^verbatim>\<open>executeVerificationWorkflow\<close> name the two
  references of a code \<^verbatim>\<open>batch\<close> and \<^verbatim>\<open>manufacturer\<close>; they are the fields
  \<open>cd_batchId\<close> and \<open>cd_manufacturerId\<close> here. The generators of the document store
  add code documents (\<^verbatim>\<open>Code.create\<close>, \<^verbatim>\<open>Code.insertMany\<close>) and write to no
  document that exists; they are not part of the model.
\<close>

record code_doc =
  cd_code :: string
  cd_batchId :: nat
  cd_manufacturerId :: nat
  cd_status :: code_status
  cd_verifiedAt :: "nat option"
  cd_verificationMethod :: "string option"
  cd_verificationCount :: nat
  cd_lastVerificationAttempt :: "nat option"

record batch_doc =
  bd_productName :: string
  bd_batchId :: string
  bd_codesVerified :: nat
  bd_codesFlagged :: nat

record verification_doc =
  vd_code :: string
  vd_codeId :: "nat option"
  vd_batchId :: "nat option"
  vd_manufacturerId :: "nat option"
  vd_method :: string
  vd_result :: result
  vd_timestamp :: nat

record mongo =
  m_codes :: "code_doc list"
  m_batches :: "batch_doc list"
  m_companies :: "string list"
  m_verifications :: "verification_doc list"

datatype js_error = TypeError

record verify_result =
  r_status :: string
  r_result :: result
  r_isAuthentic :: bool
  r_productName :: "string option"
  r_previousVerifiedAt :: "nat option"

text \<open>
  \<^verbatim>\<open>Code.findOne(filter)\<close> and \<^verbatim>\<open>Code.findOneAndUpdate(filter, ...)\<close> take the first
  document that passes the filter; \<open>first_code\<close> gives it with its position.
\<close>

definition first_code :: "(code_doc \<Rightarrow> bool) \<Rightarrow> mongo \<Rightarrow> (nat \<times> code_doc) option" where
  "first_code P m = find (\<lambda>p. P (snd p)) (zip [0..<length (m_codes m)] (m_codes m))"

definition findOne :: "string \<Rightarrow> mongo \<Rightarrow> (nat \<times> code_doc) option" where
  "findOne c m = first_code (\<lambda>doc. cd_code doc = c) m"

definition populate :: "'a list \<Rightarrow> nat \<Rightarrow> 'a option" where
  "populate xs i = (if i < length xs then Some (xs ! i) else None)"

text \<open>\<^verbatim>\<open>Code.findByIdAndUpdate(id, fields)\<close> and \<^verbatim>\<open>Batch.findByIdAndUpdate(id, { $inc })\<close>.\<close>

definition update_code :: "nat \<Rightarrow> (code_doc \<Rightarrow> code_doc) \<Rightarrow> mongo \<Rightarrow> mongo" where
  "update_code i f m =
     (if i < length (m_codes m) then m\<lparr>m_codes := (m_codes m)[i := f (m_codes m ! i)]\<rparr> else m)"

definition update_batch_doc :: "nat \<Rightarrow> (batch_doc \<Rightarrow> batch_doc) \<Rightarrow> mongo \<Rightarrow> mongo" where
  "update_batch_doc i f m =
     (if i < length (m_batches m) then m\<lparr>m_batches := (m_batches m)[i := f (m_batches m ! i)]\<rparr>
      else m)"

text \<open>
  \<^verbatim>\<open>logVerification\<close> catches its own errors. The schema of the log has
  \<^verbatim>\<open>code: { required: true }\<close> and \<^verbatim>\<open>method: { enum: ['sms', 'qr'], required: true }\<close>:
  \<^verbatim>\<open>Verification.create\<close> refuses an empty code and any other method, and no
  document is stored then.
\<close>

definition logVerification :: "string \<Rightarrow> nat option \<Rightarrow> string \<Rightarrow> result \<Rightarrow> nat \<Rightarrow> nat option
    \<Rightarrow> nat option \<Rightarrow> mongo \<Rightarrow> mongo" where
  "logVerification c codeId method res now batchId manufacturerId m =
     (if c = [] \<or> (method \<noteq> ''sms'' \<and> method \<noteq> ''qr'') then m
      else m\<lparr>m_verifications := m_verifications m @
        [\<lparr>vd_code = c, vd_codeId = codeId, vd_batchId = batchId,
          vd_manufacturerId = manufacturerId, vd_method = method, vd_result = res,
          vd_timestamp = now\<rparr>]\<rparr>)"

text \<open>Step 4 writes these fields on a repeat scan, step 6 on a first scan.\<close>

definition flag_repeat :: "nat \<Rightarrow> code_doc \<Rightarrow> code_doc \<Rightarrow> code_doc" where
  "flag_repeat now codeRecord doc =
     doc\<lparr>cd_verificationCount := cd_verificationCount codeRecord + 1,
         cd_lastVerificationAttempt := Some now, cd_status := Flagged\<rparr>"

definition mark_first :: "nat \<Rightarrow> string \<Rightarrow> code_doc \<Rightarrow> code_doc" where
  "mark_first now method doc =
     doc\<lparr>cd_status := Verified, cd_verifiedAt := Some now,
         cd_verificationMethod := Some method, cd_verificationCount := 1,
         cd_lastVerificationAttempt := Some now\<rparr>"

definition invalid_result :: "string \<Rightarrow> verify_result" where
  "invalid_result msg =
     \<lparr>r_status = ''error'', r_result = Invalid, r_isAuthentic = False,
      r_productName = None, r_previousVerifiedAt = None\<rparr>"

text \<open>
  Step 2 of \<^verbatim>\<open>verifyCode\<close>,
  \<^verbatim>\<open>await Code.findOne({ code }).populate('batchId', ...).populate('manufacturerId', ...)\<close>:
  the position of the code document, the document, and its two references as populated
  at the time of the read.
\<close>

record found_code =
  f_id :: nat
  f_record :: code_doc
  f_batch :: "batch_doc option"
  f_manufacturer :: "string option"

definition verifyCode_lookup :: "string \<Rightarrow> mongo \<Rightarrow> found_code option" where
  "verifyCode_lookup c m =
     (case findOne c m of
        None \<Rightarrow> None
      | Some (codeId, codeRecord) \<Rightarrow>
          Some \<lparr>f_id = codeId, f_record = codeRecord,
                f_batch = populate (m_batches m) (cd_batchId codeRecord),
                f_manufacturer = populate (m_companies m) (cd_manufacturerId codeRecord)\<rparr>)"

text \<open>
  Steps 3 to 8, on the store \<open>m\<close> as it is when they run; \<open>found\<close> is what step 2 read,
  possibly earlier: the function awaits between the read and its writes, and its writes
  go by \<^verbatim>\<open>_id\<close> with no condition on the status. The function has no \<^verbatim>\<open>try\<close>:
  reading a field of a reference that populated to \<^verbatim>\<open>null\<close> throws, after the writes
  that came before it.
\<close>

definition verifyCode_finish :: "nat \<Rightarrow> string \<Rightarrow> string \<Rightarrow> found_code option \<Rightarrow> mongo
    \<Rightarrow> (js_error + verify_result) \<times> mongo" where
  "verifyCode_finish now c method found m =
     (case found of
        None \<Rightarrow>
          (Inr (invalid_result ''Invalid code - not found in our system''),
           logVerification c None method Invalid now None None m)
      | Some f \<Rightarrow>
         (let codeId = f_id f; codeRecord = f_record f;
              batch = f_batch f; manufacturer = f_manufacturer f
          in if cd_status codeRecord = Verified then
               (case batch of
                  None \<Rightarrow> (Inl TypeError, m)
                | Some b \<Rightarrow>
                   (let m1 = update_code codeId (flag_repeat now codeRecord) m;
                        m2 = update_batch_doc (cd_batchId codeRecord)
                               (\<lambda>x. x\<lparr>bd_codesFlagged := bd_codesFlagged x + 1\<rparr>) m1
                    in case manufacturer of
                         None \<Rightarrow> (Inl TypeError, m2)
                       | Some _ \<Rightarrow>
                          (Inr \<lparr>r_status = ''warning'', r_result = Duplicate, r_isAuthentic = False,
                                r_productName = Some (bd_productName b),
                                r_previousVerifiedAt = cd_verifiedAt codeRecord\<rparr>,
                           logVerification c (Some codeId) method Duplicate now
                             (Some (cd_batchId codeRecord)) (Some (cd_manufacturerId codeRecord)) m2)))
             else if cd_status codeRecord = Flagged then
               (case (batch, manufacturer) of
                  (Some b, Some _) \<Rightarrow>
                    (Inr \<lparr>r_status = ''warning'', r_result = Duplicate, r_isAuthentic = False,
                          r_productName = Some (bd_productName b), r_previousVerifiedAt = None\<rparr>,
                     logVerification c (Some codeId) method Duplicate now
                       (Some (cd_batchId codeRecord)) (Some (cd_manufacturerId codeRecord)) m)
                | _ \<Rightarrow> (Inl TypeError, m))
             else
               (let m1 = update_code codeId (mark_first now method) m
                in case batch of
                     None \<Rightarrow> (Inl TypeError, m1)
                   | Some b \<Rightarrow>
                      (let m2 = update_batch_doc (cd_batchId codeRecord)
                                  (\<lambda>x. x\<lparr>bd_codesVerified := bd_codesVerified x + 1\<rparr>) m1
                       in case manufacturer of
                            None \<Rightarrow> (Inl TypeError, m2)
                          | Some _ \<Rightarrow>
                             (Inr \<lparr>r_status = ''success'', r_result = Success, r_isAuthentic = True,
                                   r_productName = Some (bd_productName b),
                                   r_previousVerifiedAt = None\<rparr>,
                              logVerification c (Some codeId) method Success now
                                (Some (cd_batchId codeRecord))
                                (Some (cd_manufacturerId codeRecord)) m2)))))"

text \<open>A call of \<^verbatim>\<open>verifyCode\<close> that no other call interleaves with.\<close>

definition verifyCode :: "nat \<Rightarrow> string \<Rightarrow> string \<Rightarrow> mongo \<Rightarrow> (js_error + verify_result) \<times> mongo" where
  "verifyCode now c method m =
     (if c = [] \<or> length c < 8 then
        (Inr (invalid_result ''Invalid code format''),
         logVerification c None method Invalid now None None m)
      else verifyCode_finish now c method (verifyCode_lookup c m) m)"

text \<open>
  \<^verbatim>\<open>flagCode\<close>, \<^verbatim>\<open>PATCH /api/codes/:code/flag\<close>:
  \<^verbatim>\<open>Code.findOneAndUpdate({ code, manufacturer: req.user._id }, { status: 'flagged' },
     { new: true })\<close>. The status of the document is not part of the filter. The answer
  is 404 when no document matches, else 200 with the document as updated.
\<close>

definition flagCode :: "string \<Rightarrow> nat \<Rightarrow> mongo \<Rightarrow> (nat \<times> code_doc option) \<times> mongo" where
  "flagCode c user m =
     (case first_code (\<lambda>doc. cd_code doc = c \<and> cd_manufacturerId doc = user) m of
        None \<Rightarrow> ((404, None), m)
      | Some (i, doc) \<Rightarrow>
          ((200, Some (doc\<lparr>cd_status := Flagged\<rparr>)),
           update_code i (\<lambda>x. x\<lparr>cd_status := Flagged\<rparr>) m))"

text \<open>
  \<^verbatim>\<open>markCodeAsVerified(code, method)\<close>:
  \<^verbatim>\<open>Code.findOneAndUpdate({ code, status: 'active' }, { status: 'verified',
     verifiedAt: new Date(), verificationMethod: method, $inc: { verificationCount: 1 } })\<close>;
  the result says whether a document was updated.
\<close>

definition markCodeAsVerified :: "nat \<Rightarrow> string \<Rightarrow> string \<Rightarrow> mongo \<Rightarrow> bool \<times> mongo" where
  "markCodeAsVerified now c method m =
     (case first_code (\<lambda>doc. cd_code doc = c \<and> cd_status doc = Active) m of
        None \<Rightarrow> (False, m)
      | Some (i, doc) \<Rightarrow>
          (True,
           update_code i
             (\<lambda>x. x\<lparr>cd_status := Verified, cd_verifiedAt := Some now,
                     cd_verificationMethod := Some method,
                     cd_verificationCount := cd_verificationCount x + 1\<rparr>) m))"

text \<open>
  \<^verbatim>\<open>executeVerificationWorkflow(inputCode, method, metadata)\<close>, without its log
  documents (they go to a collection with a schema of its own) and with the
  \<^verbatim>\<open>status\<close> of its answer. \<^verbatim>\<open>validateCodeFormat\<close> trims and upper-cases the code
  and wants 8 to 16 characters; \<^verbatim>\<open>checkCodeStatus\<close> gives the status and
  \<^verbatim>\<open>shouldUpdate\<close> for the document that was read.
\<close>

datatype workflow_status = WfSuccess | WfDuplicate | WfFlagged | WfInvalid | WfError

definition validateCodeFormat :: "string \<Rightarrow> string option" where
  "validateCodeFormat code =
     (if code = [] then None
      else (let trimmedCode = toUpperCase (trim code)
            in if length trimmedCode < 8 \<or> length trimmedCode > 16 then None
               else Some trimmedCode))"

definition checkCodeStatus :: "code_doc option \<Rightarrow> workflow_status \<times> bool" where
  "checkCodeStatus codeRecord =
     (case codeRecord of
        None \<Rightarrow> (WfInvalid, False)
      | Some doc \<Rightarrow>
          if cd_status doc = Verified then (WfDuplicate, False)
          else if cd_status doc = Flagged then (WfFlagged, False)
          else (WfSuccess, True))"

text \<open>Steps 3 and 4, for the document \<open>codeRecord\<close> that step 2 read, possibly earlier.\<close>

definition executeVerificationWorkflow_finish :: "nat \<Rightarrow> string \<Rightarrow> string \<Rightarrow> code_doc option
    \<Rightarrow> mongo \<Rightarrow> workflow_status \<times> mongo" where
  "executeVerificationWorkflow_finish now c method codeRecord m =
     (case checkCodeStatus codeRecord of
        (status, shouldUpdate) \<Rightarrow>
          if shouldUpdate then
            (case markCodeAsVerified now c method m of
               (updated, m') \<Rightarrow> (if updated then status else WfDuplicate, m'))
          else (status, m))"

definition executeVerificationWorkflow :: "nat \<Rightarrow> string \<Rightarrow> string \<Rightarrow> mongo
    \<Rightarrow> workflow_status \<times> mongo" where
  "executeVerificationWorkflow now inputCode method m =
     (case validateCodeFormat inputCode of
        None \<Rightarrow> (WfError, m)
      | Some c \<Rightarrow>
          executeVerificationWorkflow_finish now c method (map_option snd (findOne c m)) m)"

text \<open>
  A document store with one verified code, for a repeat scan, and one with the same
  code still active, for two first scans.
\<close>

definition scanned_store :: mongo where
  "scanned_store =
     \<lparr>m_codes = [\<lparr>cd_code = ''ABCDEFGHJKLM'', cd_batchId = 0, cd_manufacturerId = 0,
                  cd_status = Verified, cd_verifiedAt = Some 5,
                  cd_verificationMethod = Some ''qr'', cd_verificationCount = 1,
                  cd_lastVerificationAttempt = Some 5\<rparr>],
      m_batches = [\<lparr>bd_productName = ''P'', bd_batchId = ''BN1'', bd_codesVerified = 1,
                    bd_codesFlagged = 0\<rparr>],
      m_companies = [''Maker''],
      m_verifications = []\<rparr>"

definition fresh_store :: mongo where
  "fresh_store =
     \<lparr>m_codes = [\<lparr>cd_code = ''ABCDEFGHJKLM'', cd_batchId = 0, cd_manufacturerId = 0,
                  cd_status = Active, cd_verifiedAt = None,
                  cd_verificationMethod = None, cd_verificationCount = 0,
                  cd_lastVerificationAttempt = None\<rparr>],
      m_batches = [\<lparr>bd_productName = ''P'', bd_batchId = ''BN1'', bd_codesVerified = 0,
                    bd_codesFlagged = 0\<rparr>],
      m_companies = [''Maker''],
      m_verifications = []\<rparr>"

text \<open>
  How a code may differ after an operation. \<open>stays_or_verifies\<close>, for a row of the
  relational store: not at all, or it was active and is now verified, with a time of
  verification and the method \<^verbatim>\<open>'qr'\<close>, every other field as before.
  \<open>stays_or_flags\<close>, for a document after a call of \<^verbatim>\<open>verifyCode\<close> on its own: not
  at all; or it was verified and is now flagged, its count one higher, its last attempt
  stamped, every other field as before; or it was neither verified nor flagged and is
  now verified, its count 1, its times and method stamped, every other field as before.
  \<open>doc_moves\<close>, for a document after the writes of a \<^verbatim>\<open>verifyCode\<close> whose read
  may be out of date: not at all, or its status is now verified or flagged, whatever it
  was, and its code and references are as before.
\<close>

definition stays_or_verifies :: "code_row \<Rightarrow> code_row \<Rightarrow> bool" where
  "stays_or_verifies r r' =
     (r' = r
      \<or> (c_status r = Active \<and> c_verified_at r' \<noteq> None
          \<and> r' = r\<lparr>c_status := Verified, c_verified_at := c_verified_at r',
                    c_verification_method := Some ''qr''\<rparr>))"

definition stays_or_flags :: "code_doc \<Rightarrow> code_doc \<Rightarrow> bool" where
  "stays_or_flags r r' =
     (r' = r
      \<or> (cd_status r = Verified \<and> cd_lastVerificationAttempt r' \<noteq> None
          \<and> r' = r\<lparr>cd_status := Flagged, cd_verificationCount := cd_verificationCount r + 1,
                    cd_lastVerificationAttempt := cd_lastVerificationAttempt r'\<rparr>)
      \<or> (cd_status r \<noteq> Verified \<and> cd_status r \<noteq> Flagged
          \<and> cd_verifiedAt r' \<noteq> None \<and> cd_verificationMethod r' \<noteq> None
          \<and> r' = r\<lparr>cd_status := Verified, cd_verifiedAt := cd_verifiedAt r',
                    cd_verificationMethod := cd_verificationMethod r',
                    cd_verificationCount := 1,
                    cd_lastVerificationAttempt := cd_lastVerificationAttempt r'\<rparr>
          \<and> cd_lastVerificationAttempt r' \<noteq> None))"

definition doc_moves :: "code_doc \<Rightarrow> code_doc \<Rightarrow> bool" where
  "doc_moves r r' =
     (r' = r
      \<or> ((cd_status r' = Verified \<or> cd_status r' = Flagged)
          \<and> cd_code r' = cd_code r \<and> cd_batchId r' = cd_batchId r
          \<and> cd_manufacturerId r' = cd_manufacturerId r))"

section \<open>Runs of the system\<close>

text \<open>
  The system moves by whole invocations, one after another: a batch creation of either
  kind, a scheduler run or a verification, each with its environment. An invocation that does
  not return leaves the store of its last write.
\<close>

datatype event =
    CreateBatch create_env create_req
  | CreateBatchBackground bg_env create_req
  | ScheduledGeneration tick_env
  | Verify verify_env verify_req

fun apply_event :: "event \<Rightarrow> db \<Rightarrow> db" where
  "apply_event (CreateBatch e r) d = final d (snd (createBatch e r d))"
| "apply_event (CreateBatchBackground e r) d = final d (snd (createBatchBackground e r d))"
| "apply_event (ScheduledGeneration e) d = final d (snd (scheduledGeneration e d))"
| "apply_event (Verify e r) d = snd (verify e r d)"

definition run :: "event list \<Rightarrow> db \<Rightarrow> db" where
  "run evs d = fold apply_event evs d"


section \<open>Invariants\<close>

text \<open>
  No two stored codes share a value; the keys of the batch rows are their positions.
  \<open>batch_ok\<close> is what the spec asks of a batch: \<^verbatim>\<open>codes_generated\<close> within
  \<^verbatim>\<open>quantity\<close>, and status complete exactly when they are equal. \<open>row_ok\<close> is what
  every stored batch row has: the count within the quantity, and \<open>batch_ok\<close> unless the
  status is active (the status the background creation writes). \<open>advances b b'\<close>
  relates a batch row to the same row later: same key, same quantity, the status active
  then exactly when it was before, and a count that has not gone down. \<open>grows d d'\<close>
  says so of every batch of \<open>d\<close>. \<open>no_active d\<close>: no batch row of \<open>d\<close> has status
  active.
\<close>

definition codes_distinct :: "db \<Rightarrow> bool" where
  "codes_distinct d = distinct (map c_code (codes d))"

definition ids_ok :: "db \<Rightarrow> bool" where
  "ids_ok d = (map b_id (batches d) = [0..<length (batches d)])"

definition batch_ok :: "batch_row \<Rightarrow> bool" where
  "batch_ok b =
     (b_codes_generated b \<le> b_quantity b
      \<and> (b_status b = Complete) = (b_codes_generated b = b_quantity b))"

definition row_ok :: "batch_row \<Rightarrow> bool" where
  "row_ok b =
     (b_codes_generated b \<le> b_quantity b \<and> (b_status b = BatchActive \<or> batch_ok b))"

definition no_active :: "db \<Rightarrow> bool" where
  "no_active d = list_all (\<lambda>b. b_status b \<noteq> BatchActive) (batches d)"

definition advances :: "batch_row \<Rightarrow> batch_row \<Rightarrow> bool" where
  "advances b b' =
     (b_id b' = b_id b \<and> b_quantity b' = b_quantity b
      \<and> (b_status b' = BatchActive) = (b_status b = BatchActive)
      \<and> b_codes_generated b \<le> b_codes_generated b')"

definition grows :: "db \<Rightarrow> db \<Rightarrow> bool" where
  "grows d d' =
     (length (batches d) \<le> length (batches d')
      \<and> list_all2 advances (batches d) (take (length (batches d)) (batches d')))"

definition codes_of_batch :: "nat \<Rightarrow> db \<Rightarrow> code_row list" where
  "codes_of_batch i d = filter (\<lambda>c. c_batch_id c = i) (codes d)"

text \<open>The store \<open>d\<close> with the rows \<open>new\<close> added to its codes.\<close>

definition adds :: "db \<Rightarrow> code_row list \<Rightarrow> db" where
  "adds d new = d\<lparr>codes := codes d @ new\<rparr>"

text \<open>The store \<open>d\<close> with the batch row at position \<open>i\<close> replaced.\<close>

definition put_row :: "db \<Rightarrow> nat \<Rightarrow> batch_row \<Rightarrow> db" where
  "put_row d i b = d\<lparr>batches := (batches d)[i := b]\<rparr>"

text \<open>
  \<open>touches_only ids d d'\<close>: from \<open>d\<close> to \<open>d'\<close> the invariants are kept, no batch row
  is added, and the batches outside \<open>ids\<close> keep their rows and their codes.
\<close>

definition touches_only :: "nat set \<Rightarrow> db \<Rightarrow> db \<Rightarrow> bool" where
  "touches_only ids d d' =
     (ids_ok d' \<and> (codes_distinct d \<longrightarrow> codes_distinct d')
      \<and> list_all row_ok (batches d') \<and> grows d d'
      \<and> length (batches d') = length (batches d)
      \<and> (\<forall>i<length (batches d). i \<notin> ids \<longrightarrow> batches d' ! i = batches d ! i)
      \<and> (\<forall>i. i \<notin> ids \<longrightarrow> codes_of_batch i d' = codes_of_batch i d)
      \<and> verifications d' = verifications d)"

definition store_inv :: "db \<Rightarrow> bool" where
  "store_inv d = (ids_ok d \<and> codes_distinct d \<and> list_all row_ok (batches d))"

text \<open>
  What the outer loop of the background generation keeps true of its state, from the
  store \<open>d0\<close> it started on, for the batch of key \<open>i\<close>: only that batch is touched,
  it keeps the status active, and its stored count is at most the running total.
\<close>

definition bg_inv :: "db \<Rightarrow> nat \<Rightarrow> bg_state \<Rightarrow> bool" where
  "bg_inv d0 i s =
     (touches_only {i} d0 (s_db s) \<and> b_status (batches (s_db s) ! i) = BatchActive
      \<and> b_codes_generated (batches (s_db s) ! i) \<le> s_totalGenerated s
      \<and> s_db s = final d0 (pass_stores (s_passes s)))"

text \<open>
  \<open>pass_counts d0 i p\<close>: at the end of the pass \<open>p\<close> of a background generation that
  started on the store \<open>d0\<close> for the batch of key \<open>i\<close>, the running total is the number
  of rows added since \<open>d0\<close>, and, when the pass inserted its sub-chunk and its progress
  update went through, it is the stored \<^verbatim>\<open>codes_generated\<close> of that batch.
\<close>

definition pass_counts :: "db \<Rightarrow> nat \<Rightarrow> pass \<Rightarrow> bool" where
  "pass_counts d0 i p =
     (prefix (codes d0) (codes (p_after p))
      \<and> length (codes (p_after p)) = length (codes d0) + p_total p
      \<and> (p_inserted p \<and> \<not> p_update_fault p \<longrightarrow>
           list_all (\<lambda>b. b_id b = i \<longrightarrow> b_codes_generated b = p_total p)
             (batches (p_after p))))"

definition bg_frame :: "db \<Rightarrow> nat \<Rightarrow> bg_state \<Rightarrow> bool" where
  "bg_frame d0 i s =
     (s_db s = final d0 (pass_stores (s_passes s))
      \<and> prefix (codes d0) (codes (s_db s))
      \<and> length (codes (s_db s)) = length (codes d0) + s_totalGenerated s
      \<and> list_all (pass_counts d0 i) (s_passes s))"

section \<open>A concrete race\<close>

text \<open>
  One batch of one code, and GET requests for that code from one address. \<open>race_db0\<close>
  is the store in which the code is fresh.
\<close>

definition race_code :: string where
  "race_code = ''ABCDEFGHJKLM''"

definition race_db0 :: db where
  "race_db0 =
     \<lparr>codes = [\<lparr>c_code = race_code, c_batch_id = 0, c_manufacturer_id = 7, c_status = Active,
                c_verified_at = None, c_verification_method = None\<rparr>],
      batches = [\<lparr>b_id = 0, b_batch_id = ''BN1'', b_manufacturer_id = 7, b_product_name = ''P'',
                  b_product_category = ''C'', b_quantity = 1, b_codes_generated = 1,
                  b_status = Complete\<rparr>],
      verifications = []\<rparr>"

definition race_req :: verify_req where
  "race_req = \<lparr>vr_method = GET, vr_query_code = Some race_code, vr_body_code = BodyCodeAbsent,
               vr_forwarded_for = ''203.0.113.9'', vr_real_ip = []\<rparr>"

definition race_env :: verify_env where
  "race_env = \<lparr>ve_now = 5, ve_geo = None, ve_lookup_fault = False, ve_update_fault = False,
               ve_log_fault = False\<rparr>"

section \<open>A concrete batch\<close>

text \<open>
  A request for one code, an environment in which every storage call goes through and one
  in which every chunk insert fails, a scheduler run without faults, and the batch row
  the first environment leaves.
\<close>

definition demo_create_env :: create_env where
  "demo_create_env =
     \<lparr>ce_auto_batch_id = ''BN20240101ABCDEF'',
      ce_entropy = [0, 1, 2, 3, 4, 5, 6, 7, 8, 9, 10, 11],
      ce_lookup_fault = False, ce_batch_insert_fault = False,
      ce_chunk_faults = [], ce_update_fault = False\<rparr>"

definition demo_create_req :: create_req where
  "demo_create_req =
     \<lparr>cr_method = POST, cr_auth = Some 7,
      cr_body = Some \<lparr>cb_productName = ''P'', cb_productCategory = ''C'',
                      cb_quantity = QNumber 1, cb_customBatchId = []\<rparr>\<rparr>"

definition demo_tick_env :: tick_env where
  "demo_tick_env = \<lparr>te_fetch_fault = False, te_batches = []\<rparr>"

definition demo_batch :: batch_row where
  "demo_batch =
     \<lparr>b_id = 0, b_batch_id = ''BN20240101ABCDEF'', b_manufacturer_id = 7, b_product_name = ''P'',
      b_product_category = ''C'', b_quantity = 1, b_codes_generated = 1, b_status = Complete\<rparr>"


section \<open>Concrete installments\<close>

text \<open>
  1800 distinct codes over the first thirty symbols (two chunks of the bulk insert), a
  store with one pending batch of that size and one with a pending batch of one code,
  environments without faults whose random bytes give the code \<^verbatim>\<open>ABCDEFGHJKLM\<close>,
  and what the scheduler's loop body and the synchronous generation of the create-batch
  function return on the small store.
\<close>

definition many_codes :: "string list" where
  "many_codes =
     map (\<lambda>(a, b, c). a # b # c # ''AAAAAAAAA'')
       (List.product ''AB'' (List.product (take 30 chars) (take 30 chars)))"

definition pending_db :: db where
  "pending_db =
     \<lparr>codes = [],
      batches = [\<lparr>b_id = 0, b_batch_id = ''BN1'', b_manufacturer_id = 7, b_product_name = ''P'',
                  b_product_category = ''C'', b_quantity = 1800, b_codes_generated = 0,
                  b_status = Generating\<rparr>],
      verifications = []\<rparr>"


definition demo_bg_env :: bg_env where
  "demo_bg_env =
     \<lparr>bg_batch_id = ''BN20240101ABCDE'', bg_entropy = [0, 1, 2, 3, 4, 5, 6, 7, 8, 9, 10, 11],
      bg_batch_insert_fault = False, bg_select_faults = [], bg_insert_faults = [],
      bg_update_faults = []\<rparr>"

definition one_pending_db :: db where
  "one_pending_db =
     \<lparr>codes = [],
      batches = [\<lparr>b_id = 0, b_batch_id = ''BN1'', b_manufacturer_id = 7, b_product_name = ''P'',
                  b_product_category = ''C'', b_quantity = 1, b_codes_generated = 0,
                  b_status = Generating\<rparr>],
      verifications = []\<rparr>"

definition demo_batch_env :: batch_env where
  "demo_batch_env =
     \<lparr>be_entropy = [0, 1, 2, 3, 4, 5, 6, 7, 8, 9, 10, 11], be_chunk_faults = [],
      be_update_fault = False\<rparr>"

definition demo_body :: create_body where
  "demo_body = \<lparr>cb_productName = ''P'', cb_productCategory = ''C'',
                 cb_quantity = QNumber 1, cb_customBatchId = []\<rparr>"

definition tick_outcome :: "tick_result \<times> db list" where
  "tick_outcome = the (process_batch demo_batch_env (hd (batches one_pending_db)) one_pending_db)"

definition create_outcome :: "response option \<times> db list" where
  "create_outcome =
     createBatch_generate demo_create_env 7 demo_body 1 ''BN1'' (hd (batches one_pending_db))
       one_pending_db"

section \<open>Generator facts\<close>

lemma chars_length: "length chars = 32"
  by (simp add: chars_def)

lemma codeOfBytes_length: "length (codeOfBytes bytes) = length bytes"
  by (simp add: codeOfBytes_def)

lemma first30_no_8_9:
  "k < 30 \<Longrightarrow> chars ! k \<noteq> CHR ''8'' \<and> chars ! k \<noteq> CHR ''9''"
proof -
  assume k: "k < 30"
  have "chars ! k = take 30 chars ! k" using k by simp
  moreover have "take 30 chars ! k \<in> set (take 30 chars)"
    using k by (intro nth_mem) (simp add: chars_def)
  moreover have "CHR ''8'' \<notin> set (take 30 chars)" "CHR ''9'' \<notin> set (take 30 chars)"
    by (simp_all add: chars_def)
  ultimately show ?thesis by metis
qed

lemma codeOfBytes_in_alphabet: "set (codeOfBytes bytes) \<subseteq> set chars"
proof -
  have "unat b mod 30 < length chars" for b :: byte
    by (simp add: chars_length less_trans [OF pos_mod_bound, of 30 _ 32])
  then show ?thesis
    by (auto simp: codeOfBytes_def)
qed

lemma generateCode_reaches_every_symbol:
  "k < 32 \<Longrightarrow> generateCode [of_nat k] = [chars ! k]"
  by (simp add: generateCode_def chars_length unat_of_nat take_bit_nat_eq_self)

section \<open>Lemmas\<close>

subsection \<open>Traces\<close>

lemma final_Nil [simp]: "final d [] = d"
  by (simp add: final_def)

lemma final_Cons [simp]: "final d (x # tr) = final x tr"
  by (simp add: final_def)

lemma final_append [simp]: "final d (tr @ tr') = final (final d tr) tr'"
  by (induction tr arbitrary: d) simp_all

subsection \<open>The generator\<close>

lemma set_add_length: "length (set_add s x) \<le> Suc (length s)"
  by (simp add: set_add_def)

lemma set_add_distinct: "distinct s \<Longrightarrow> distinct (set_add s x)"
  by (simp add: set_add_def)

lemma generateCodes_loop_result:
  "generateCodes_loop qty s src = Some (cs, rest) \<Longrightarrow> length s \<le> qty \<Longrightarrow> distinct s
   \<Longrightarrow> length cs = qty \<and> distinct cs"
proof (induction qty s src rule: generateCodes_loop.induct)
  case (1 qty s src)
  show ?case
  proof (cases "length s < qty")
    case False
    with "1.prems" show ?thesis
      by (simp add: generateCodes_loop.simps [of qty s src])
  next
    case True
    with "1.prems"(1) obtain bytes src' where rb: "randomBytes 12 src = Some (bytes, src')"
      and rec: "generateCodes_loop qty (set_add s (codeOfBytes bytes)) src' = Some (cs, rest)"
      by (auto simp: generateCodes_loop.simps [of qty s src] split: option.splits)
    have "length (set_add s (codeOfBytes bytes)) \<le> qty"
      using True set_add_length [of s "codeOfBytes bytes"] by simp
    moreover have "distinct (set_add s (codeOfBytes bytes))"
      using "1.prems"(3) by (rule set_add_distinct)
    ultimately show ?thesis
      using "1.IH" [OF True rb refl rec] by simp
  qed
qed

lemma generateCodes_result:
  "generateCodes qty src = Some (cs, rest) \<Longrightarrow> length cs = qty \<and> distinct cs"
  using generateCodes_loop_result [of qty "[]" src cs rest] by (simp add: generateCodes_def)

lemma buildRecords_length [simp]: "length (buildRecords cs i u) = length cs"
  by (simp add: buildRecords_def)

lemma buildRecords_batch: "r \<in> set (buildRecords cs i u) \<Longrightarrow> c_batch_id r = i"
  by (auto simp: buildRecords_def)

subsection \<open>Chunks\<close>

lemma concat_chunks_of: "0 < n \<Longrightarrow> concat (chunks_of n xs) = xs"
proof (induction n xs rule: chunks_of.induct)
  case (1 n xs)
  show ?case
  proof (cases "xs = []")
    case True
    then show ?thesis by (simp add: chunks_of.simps [of n "[]"])
  next
    case False
    with "1.prems" have "concat (chunks_of n (drop n xs)) = drop n xs"
      using "1.IH" by simp
    with False "1.prems" show ?thesis
      by (simp add: chunks_of.simps [of n xs])
  qed
qed

subsection \<open>Chunk inserts\<close>

lemma codes_insert_cases:
  "codes_insert f rows d = (True, d)
   \<or> (codes_insert f rows d = (False, d\<lparr>codes := codes d @ rows\<rparr>)
      \<and> distinct (map c_code rows)
      \<and> set (map c_code (codes d)) \<inter> set (map c_code rows) = {})"
proof (cases "f \<or> \<not> distinct (map c_code rows)
    \<or> list_ex (\<lambda>r. c_code r \<in> set (map c_code (codes d))) rows")
  case True
  then have "codes_insert f rows d = (True, d)"
    unfolding codes_insert_def by (rule if_P)
  then show ?thesis by simp
next
  case False
  then have eq: "codes_insert f rows d = (False, d\<lparr>codes := codes d @ rows\<rparr>)"
    unfolding codes_insert_def by (rule if_not_P)
  from False have "\<forall>r\<in>set rows. c_code r \<notin> c_code ` set (codes d)"
    by (simp add: list_ex_iff)
  then have "set (map c_code (codes d)) \<inter> set (map c_code rows) = {}"
    by (auto simp: image_iff) metis
  with False eq show ?thesis by simp
qed

lemma codes_insert_distinct:
  "codes_distinct d \<Longrightarrow> codes_distinct (snd (codes_insert f rows d))"
  using codes_insert_cases [of f rows d] by (auto simp: codes_distinct_def)

lemma adds_simps [simp]:
  "codes (adds d new) = codes d @ new"
  "batches (adds d new) = batches d"
  "verifications (adds d new) = verifications d"
  "adds d [] = d"
  "adds (adds d xs) ys = adds d (xs @ ys)"
  by (simp_all add: adds_def)

lemma insert_chunks_effect:
  "\<exists>new. final d (map snd (insert_chunks fs cs d)) = adds d new
     \<and> sum_list (map fst (insert_chunks fs cs d)) = length new
     \<and> set new \<subseteq> set (concat cs) \<and> length new \<le> length (concat cs)
     \<and> (codes_distinct d \<longrightarrow> codes_distinct (adds d new))"
proof (induction cs arbitrary: fs d)
  case Nil
  show ?case by (rule exI [of _ "[]"]) simp
next
  case (Cons c cs)
  from codes_insert_cases [of "next_fault fs" c d] show ?case
  proof
    assume step: "codes_insert (next_fault fs) c d = (True, d)"
    from Cons.IH [of d "tl fs"] obtain new where
      "final d (map snd (insert_chunks (tl fs) cs d)) = adds d new"
      "sum_list (map fst (insert_chunks (tl fs) cs d)) = length new"
      "set new \<subseteq> set (concat cs)" "length new \<le> length (concat cs)"
      "codes_distinct d \<longrightarrow> codes_distinct (adds d new)"
      by blast
    with step show ?thesis
      by (intro exI [of _ new]) auto
  next
    assume "codes_insert (next_fault fs) c d = (False, d\<lparr>codes := codes d @ c\<rparr>)
      \<and> distinct (map c_code c) \<and> set (map c_code (codes d)) \<inter> set (map c_code c) = {}"
    then have step: "codes_insert (next_fault fs) c d = (False, adds d c)"
      and dist: "codes_distinct d \<longrightarrow> codes_distinct (adds d c)"
      by (auto simp: adds_def codes_distinct_def)
    from Cons.IH [of "adds d c" "tl fs"] obtain new where
      "final (adds d c) (map snd (insert_chunks (tl fs) cs (adds d c))) = adds (adds d c) new"
      "sum_list (map fst (insert_chunks (tl fs) cs (adds d c))) = length new"
      "set new \<subseteq> set (concat cs)" "length new \<le> length (concat cs)"
      "codes_distinct (adds d c) \<longrightarrow> codes_distinct (adds (adds d c) new)"
      by blast
    with step dist show ?thesis
      by (intro exI [of _ "c @ new"]) auto
  qed
qed

lemma CHUNK_SIZE_pos: "0 < CHUNK_SIZE"
  by (simp add: CHUNK_SIZE_def)

lemma insertCodes_effect:
  "\<exists>new. snd (insertCodes fs records d) = adds d new
     \<and> fst (insertCodes fs records d) = length new \<and> length new \<le> length records"
  using insert_chunks_effect [of d fs "chunks_of CHUNK_SIZE records"]
  by (auto simp: insertCodes_def Let_def concat_chunks_of [OF CHUNK_SIZE_pos])

lemma insert_chunks_batches:
  "list_all (\<lambda>d'. batches d' = batches d \<and> verifications d' = verifications d)
     (map snd (insert_chunks fs cs d))"
proof (induction cs arbitrary: fs d)
  case Nil
  then show ?case by simp
next
  case (Cons c cs)
  obtain err d1 where step: "codes_insert (next_fault fs) c d = (err, d1)"
    by (cases "codes_insert (next_fault fs) c d")
  with codes_insert_cases [of "next_fault fs" c d]
  have same: "batches d1 = batches d \<and> verifications d1 = verifications d"
    by auto
  with Cons.IH [of d1 "tl fs"] step show ?case
    by simp
qed

subsection \<open>The batch table\<close>

lemma ids_ok_nth:
  "ids_ok d \<Longrightarrow> i < length (batches d) \<Longrightarrow> b_id (batches d ! i) = i"
proof -
  assume ok: "ids_ok d" and i: "i < length (batches d)"
  have "b_id (batches d ! i) = map b_id (batches d) ! i"
    using i by simp
  also have "\<dots> = [0..<length (batches d)] ! i"
    using ok by (simp add: ids_ok_def)
  also have "\<dots> = i"
    using i by simp
  finally show ?thesis .
qed

lemma ids_ok_member:
  assumes ok: "ids_ok d" and b: "b \<in> set (batches d)"
  shows "b_id b < length (batches d) \<and> batches d ! b_id b = b"
proof -
  from b obtain i where i: "i < length (batches d)" and bi: "batches d ! i = b"
    by (auto simp: in_set_conv_nth)
  with ids_ok_nth [OF ok i] show ?thesis by simp
qed

lemma ids_ok_distinct: "ids_ok d \<Longrightarrow> distinct (map b_id (batches d))"
  by (simp add: ids_ok_def)

lemma ids_ok_update_rows:
  assumes ok: "ids_ok d" and i: "i < length (batches d)"
  shows "map (\<lambda>b. if b_id b = i then g b else b) (batches d) = (batches d)[i := g (batches d ! i)]"
proof (rule nth_equalityI)
  show "length (map (\<lambda>b. if b_id b = i then g b else b) (batches d))
      = length ((batches d)[i := g (batches d ! i)])"
    by simp
next
  fix j
  assume "j < length (map (\<lambda>b. if b_id b = i then g b else b) (batches d))"
  then have j: "j < length (batches d)" by simp
  with ids_ok_nth [OF ok j] i
  show "map (\<lambda>b. if b_id b = i then g b else b) (batches d) ! j
      = (batches d)[i := g (batches d ! i)] ! j"
    by (cases "j = i") simp_all
qed

lemma put_row_simps [simp]:
  "codes (put_row d i b) = codes d"
  "verifications (put_row d i b) = verifications d"
  "batches (put_row d i b) = (batches d)[i := b]"
  by (simp_all add: put_row_def)

lemma update_batch_cases:
  assumes ok: "ids_ok d" and b: "batch \<in> set (batches d)"
  shows "update_batch f (b_id batch) n st d = d
    \<or> update_batch f (b_id batch) n st d
        = put_row d (b_id batch) (batch\<lparr>b_codes_generated := n, b_status := st\<rparr>)"
proof (cases f)
  case True
  then show ?thesis by (simp add: update_batch_def)
next
  case False
  from ids_ok_member [OF ok b] have i: "b_id batch < length (batches d)"
    and at: "batches d ! b_id batch = batch"
    by simp_all
  from False ids_ok_update_rows [OF ok i, of "\<lambda>b. b\<lparr>b_codes_generated := n, b_status := st\<rparr>"] at
  show ?thesis
    by (simp add: update_batch_def put_row_def)
qed

lemma update_batch_count_cases:
  assumes ok: "ids_ok d" and b: "batch \<in> set (batches d)"
  shows "update_batch_count f (b_id batch) n d = d
    \<or> update_batch_count f (b_id batch) n d
        = put_row d (b_id batch) (batch\<lparr>b_codes_generated := n\<rparr>)"
proof (cases f)
  case True
  then show ?thesis by (simp add: update_batch_count_def)
next
  case False
  from ids_ok_member [OF ok b] have i: "b_id batch < length (batches d)"
    and at: "batches d ! b_id batch = batch"
    by simp_all
  from False ids_ok_update_rows [OF ok i, of "\<lambda>b. b\<lparr>b_codes_generated := n\<rparr>"] at
  show ?thesis
    by (simp add: update_batch_count_def put_row_def)
qed

lemma advances_refl [simp]: "advances b b"
  by (simp add: advances_def)

lemma advances_trans: "advances a b \<Longrightarrow> advances b c \<Longrightarrow> advances a c"
  by (auto simp: advances_def)

lemma grows_refl [simp]: "grows d d"
  by (simp add: grows_def list_all2_refl)

lemma grows_nth:
  "grows d d' \<longleftrightarrow> length (batches d) \<le> length (batches d')
     \<and> (\<forall>i<length (batches d). advances (batches d ! i) (batches d' ! i))"
  by (auto simp: grows_def list_all2_conv_all_nth)

lemma grows_trans: "grows a b \<Longrightarrow> grows b c \<Longrightarrow> grows a c"
  unfolding grows_nth by (meson advances_trans le_trans less_le_trans)

lemma grows_same_batches: "batches d' = batches d \<Longrightarrow> grows d d'"
  by (simp add: grows_nth)

lemma put_row_ids_ok:
  "ids_ok d \<Longrightarrow> b_id b = i \<Longrightarrow> ids_ok (put_row d i b)"
proof (cases "i < length (batches d)")
  case True
  assume "ids_ok d" "b_id b = i"
  with True show ?thesis
    by (simp add: ids_ok_def map_update list_update_same_conv)
next
  case False
  assume "ids_ok d"
  moreover from False have "(batches d)[i := b] = batches d"
    by (simp add: list_update_beyond)
  ultimately show ?thesis
    by (simp add: ids_ok_def put_row_def)
qed

lemma put_row_scheduled:
  "list_all row_ok (batches d) \<Longrightarrow> row_ok b
   \<Longrightarrow> list_all row_ok (batches (put_row d i b))"
  by (auto simp: list_all_iff dest!: set_update_subset_insert [THEN subsetD])

lemma put_row_grows:
  "i < length (batches d) \<Longrightarrow> advances (batches d ! i) b \<Longrightarrow> grows d (put_row d i b)"
  by (auto simp: grows_nth nth_list_update)

subsection \<open>One batch, one installment\<close>

lemma adds_ids_ok [simp]: "ids_ok (adds d new) = ids_ok d"
  by (simp add: ids_ok_def)

lemma codes_of_batch_adds:
  "list_all (\<lambda>c. c_batch_id c = j) new \<Longrightarrow> i \<noteq> j
   \<Longrightarrow> codes_of_batch i (adds d new) = codes_of_batch i d"
  by (induction new) (simp_all add: codes_of_batch_def)

lemma touches_only_refl:
  "ids_ok d \<Longrightarrow> list_all row_ok (batches d) \<Longrightarrow> touches_only ids d d"
  by (simp add: touches_only_def)

lemma touches_only_trans:
  "touches_only A d d1 \<Longrightarrow> touches_only B d1 d2 \<Longrightarrow> touches_only (A \<union> B) d d2"
  unfolding touches_only_def by (auto intro: grows_trans)

lemma touches_only_mono:
  "touches_only A d d' \<Longrightarrow> A \<subseteq> B \<Longrightarrow> touches_only B d d'"
  unfolding touches_only_def by (auto simp: subset_iff)


lemma installment_touches:
  assumes ok: "ids_ok d" and all: "list_all row_ok (batches d)"
    and b: "batch \<in> set (batches d)" and st: "b_status batch = Generating"
    and new: "list_all (\<lambda>c. c_batch_id c = b_id batch) new"
    and dist: "codes_distinct d \<longrightarrow> codes_distinct (adds d new)"
    and le: "b_codes_generated batch + length new \<le> b_quantity batch"
    and d': "d' = adds d new
      \<or> d' = put_row (adds d new) (b_id batch)
          (batch\<lparr>b_codes_generated := b_codes_generated batch + length new,
                 b_status := (if b_codes_generated batch + length new \<ge> b_quantity batch
                              then Complete else Generating)\<rparr>)"
  shows "touches_only {b_id batch} d d'"
proof -
  let ?i = "b_id batch"
  let ?b' = "batch\<lparr>b_codes_generated := b_codes_generated batch + length new,
                 b_status := (if b_codes_generated batch + length new \<ge> b_quantity batch
                              then Complete else Generating)\<rparr>"
  from ids_ok_member [OF ok b] have i: "?i < length (batches d)" and at: "batches d ! ?i = batch"
    by simp_all
  have codes: "\<forall>j. j \<notin> {?i} \<longrightarrow> codes_of_batch j (adds d new) = codes_of_batch j d"
    using codes_of_batch_adds [OF new] by simp
  from d' show ?thesis
  proof
    assume "d' = adds d new"
    with ok all dist codes show ?thesis
      by (simp add: touches_only_def grows_same_batches)
  next
    assume eq: "d' = put_row (adds d new) ?i ?b'"
    have "row_ok ?b'"
      using le by (simp add: row_ok_def batch_ok_def)
    then have "list_all row_ok (batches d')"
      using all eq put_row_scheduled [of "adds d new" ?b' ?i] by simp
    moreover have "ids_ok d'"
      using ok eq put_row_ids_ok [of "adds d new" ?b' ?i] by simp
    moreover have "advances batch ?b'"
      using st by (simp add: advances_def)
    then have "grows d d'"
      using i at eq put_row_grows [of ?i "adds d new" ?b'] grows_same_batches [of "adds d new" d]
      by (auto intro: grows_trans)
    moreover have "codes_distinct d \<longrightarrow> codes_distinct d'"
      using dist eq by (simp add: codes_distinct_def)
    moreover have "\<forall>j. j \<notin> {?i} \<longrightarrow> codes_of_batch j d' = codes_of_batch j d"
      using codes eq by (simp add: codes_of_batch_def)
    ultimately show ?thesis
      using eq by (simp add: touches_only_def)
  qed
qed

lemma rows_of_batch:
  "set new \<subseteq> set (buildRecords cs i u) \<Longrightarrow> list_all (\<lambda>c. c_batch_id c = i) new"
  by (auto simp: list_all_iff dest: buildRecords_batch)

lemma process_batch_touches:
  assumes ok: "ids_ok d" and all: "list_all row_ok (batches d)"
    and b: "batch \<in> set (batches d)" and st: "b_status batch = Generating"
    and lt: "b_codes_generated batch < b_quantity batch"
    and run: "process_batch e batch d = Some (res, tr)"
  shows "touches_only {b_id batch} d (final d tr)"
proof -
  let ?n = "min CODES_PER_RUN (b_quantity batch - b_codes_generated batch)"
  from run obtain cs rest where gen: "generateCodes ?n (be_entropy e) = Some (cs, rest)"
    by (auto simp: process_batch_def Let_def split: option.splits)
  let ?records = "buildRecords cs (b_id batch) (b_manufacturer_id batch)"
  let ?tr = "insert_chunks (be_chunk_faults e) (chunks_of CHUNK_SIZE ?records) d"
  from insert_chunks_effect [of d "be_chunk_faults e" "chunks_of CHUNK_SIZE ?records"]
  obtain new where fin: "final d (map snd ?tr) = adds d new"
    and len: "sum_list (map fst ?tr) = length new"
    and sub: "set new \<subseteq> set ?records" and le: "length new \<le> length ?records"
    and dist: "codes_distinct d \<longrightarrow> codes_distinct (adds d new)"
    by (auto simp: concat_chunks_of [OF CHUNK_SIZE_pos])
  from generateCodes_result [OF gen] le have le': "length new \<le> ?n"
    by simp
  with lt have bound: "b_codes_generated batch + length new \<le> b_quantity batch"
    by arith
  let ?total = "b_codes_generated batch + length new"
  let ?st = "if ?total \<ge> b_quantity batch then Complete else Generating"
  from run gen fin len
  have tr: "final d tr = update_batch (be_update_fault e) (b_id batch) ?total ?st (adds d new)"
    by (auto simp: process_batch_def Let_def)
  have "ids_ok (adds d new)" "batch \<in> set (batches (adds d new))"
    using ok b by simp_all
  from update_batch_cases [OF this, of "be_update_fault e" ?total ?st] tr
  have "final d tr = adds d new
      \<or> final d tr = put_row (adds d new) (b_id batch)
          (batch\<lparr>b_codes_generated := ?total, b_status := ?st\<rparr>)"
    by simp
  with installment_touches [OF ok all b st rows_of_batch [OF sub] dist bound]
  show ?thesis by simp
qed

subsection \<open>The scheduler\<close>

lemma touches_only_keeps:
  assumes t: "touches_only ids d d'" and ok: "ids_ok d"
    and b: "b \<in> set (batches d)" and out: "b_id b \<notin> ids"
  shows "b \<in> set (batches d')"
proof -
  from ids_ok_member [OF ok b] have i: "b_id b < length (batches d)"
    and at: "batches d ! b_id b = b"
    by simp_all
  with t out have "batches d' ! b_id b = b" "b_id b < length (batches d')"
    by (simp_all add: touches_only_def)
  then show ?thesis
    by (metis nth_mem)
qed

lemma process_batches_touches:
  assumes "ids_ok d" and "list_all row_ok (batches d)"
    and "set bs \<subseteq> set (batches d)" and "distinct (map b_id bs)"
    and "\<forall>b\<in>set bs. b_status b = Generating \<and> b_codes_generated b < b_quantity b"
  shows "touches_only (b_id ` set bs) d (final d (snd (process_batches es bs d)))"
  using assms
proof (induction bs arbitrary: es d)
  case Nil
  then show ?case by (simp add: touches_only_refl)
next
  case (Cons batch bs)
  show ?case
  proof (cases "process_batch (next_env es) batch d")
    case None
    with Cons.prems show ?thesis
      by (simp add: touches_only_refl)
  next
    case (Some p)
    obtain res tr where p: "p = (res, tr)" by (cases p)
    let ?d1 = "final d tr"
    from Cons.prems have b: "batch \<in> set (batches d)" and st: "b_status batch = Generating"
      and lt: "b_codes_generated batch < b_quantity batch"
      by simp_all
    from Some p have run: "process_batch (next_env es) batch d = Some (res, tr)"
      by simp
    have t1: "touches_only {b_id batch} d ?d1"
      using process_batch_touches [OF Cons.prems(1) Cons.prems(2) b st lt run] .
    then have ok1: "ids_ok ?d1" and all1: "list_all row_ok (batches ?d1)"
      by (simp_all add: touches_only_def)
    have sub1: "set bs \<subseteq> set (batches ?d1)"
    proof
      fix x
      assume x: "x \<in> set bs"
      with Cons.prems(3) have xd: "x \<in> set (batches d)" by auto
      from x Cons.prems(4) have "b_id x \<noteq> b_id batch"
        by (metis distinct.simps(2) image_eqI list.simps(9) list.set_map)
      then show "x \<in> set (batches ?d1)"
        using touches_only_keeps [OF t1 Cons.prems(1) xd] by simp
    qed
    from Cons.prems have dist1: "distinct (map b_id bs)"
      and gen1: "\<forall>b\<in>set bs. b_status b = Generating \<and> b_codes_generated b < b_quantity b"
      by simp_all
    have t2: "touches_only (b_id ` set bs) ?d1
        (final ?d1 (snd (process_batches (tl es) bs ?d1)))"
      using Cons.IH [OF ok1 all1 sub1 dist1 gen1] .
    have "final d (snd (process_batches es (batch # bs) d))
        = final ?d1 (snd (process_batches (tl es) bs ?d1))"
      using run by (simp split: prod.splits)
    with touches_only_trans [OF t1 t2] show ?thesis
      by simp
  qed
qed

lemma scheduledGeneration_touches:
  assumes ok: "ids_ok d" and all: "list_all row_ok (batches d)"
  shows "touches_only (b_id ` {b \<in> set (batches d). b_status b = Generating}) d
      (final d (snd (scheduledGeneration e d)))"
proof -
  let ?all = "filter (\<lambda>b. b_status b = Generating) (batches d)"
  let ?bs = "take 10 (filter (\<lambda>b. b_codes_generated b < b_quantity b) ?all)"
  let ?G = "b_id ` {b \<in> set (batches d). b_status b = Generating}"
  have idle: "touches_only ?G d d"
    using ok all by (rule touches_only_refl)
  have sub: "set ?bs \<subseteq> set (batches d)"
    by (auto dest: in_set_takeD)
  have dist: "distinct (map b_id ?bs)"
    using ids_ok_distinct [OF ok] by (simp add: distinct_map_filter take_map [symmetric])
  have gen: "\<forall>b\<in>set ?bs. b_status b = Generating \<and> b_codes_generated b < b_quantity b"
    by (auto dest: in_set_takeD)
  have ids: "b_id ` set ?bs \<subseteq> ?G"
    by (auto dest: in_set_takeD)
  have work: "touches_only ?G d (final d (snd (process_batches (te_batches e) ?bs d)))"
    using process_batches_touches [OF ok all sub dist gen] ids by (rule touches_only_mono)
  show ?thesis
  proof (cases "te_fetch_fault e \<or> ?all = [] \<or> ?bs = []")
    case True
    with idle show ?thesis
      by (auto simp: scheduledGeneration_def Let_def)
  next
    case False
    then have "final d (snd (scheduledGeneration e d))
        = final d (snd (process_batches (te_batches e) ?bs d))"
      by (simp add: scheduledGeneration_def Let_def split: prod.splits option.splits)
    with work show ?thesis by simp
  qed
qed

subsection \<open>Batch creation\<close>

lemma touches_only_inv:
  "touches_only ids d d' \<Longrightarrow> store_inv d \<Longrightarrow> store_inv d' \<and> grows d d'"
  by (simp add: touches_only_def store_inv_def)

lemma touches_only_no_active:
  assumes t: "touches_only ids d d'" and n: "no_active d"
  shows "no_active d'"
proof -
  from t have len: "length (batches d') = length (batches d)" and g: "grows d d'"
    by (simp_all add: touches_only_def)
  show ?thesis
    unfolding no_active_def list_all_length
  proof (intro allI impI)
    fix i
    assume "i < length (batches d')"
    with len have i: "i < length (batches d)" by simp
    with g have "advances (batches d ! i) (batches d' ! i)"
      by (simp add: grows_nth)
    moreover from n i have "b_status (batches d ! i) \<noteq> BatchActive"
      by (simp add: no_active_def list_all_length)
    ultimately show "b_status (batches d' ! i) \<noteq> BatchActive"
      by (simp add: advances_def)
  qed
qed

lemma SYNC_LIMIT_le: "min qty SYNC_LIMIT \<le> qty"
  by simp

lemma createBatch_generate_touches:
  assumes ok: "ids_ok d" and all: "list_all row_ok (batches d)"
    and b: "batch \<in> set (batches d)" and st: "b_status batch = Generating"
    and zero: "b_codes_generated batch = 0" and q: "b_quantity batch = qty"
  shows "touches_only {b_id batch} d (final d (snd (createBatch_generate e u cb qty bid batch d)))"
proof (cases "generateCodes (min qty SYNC_LIMIT) (ce_entropy e)")
  case None
  with ok all show ?thesis
    by (simp add: createBatch_generate_def touches_only_refl)
next
  case (Some p)
  obtain cs rest where p: "p = (cs, rest)" by (cases p)
  with Some have gen: "generateCodes (min qty SYNC_LIMIT) (ce_entropy e) = Some (cs, rest)"
    by simp
  let ?records = "buildRecords cs (b_id batch) u"
  let ?tr = "insert_chunks (ce_chunk_faults e) (chunks_of CHUNK_SIZE ?records) d"
  from insert_chunks_effect [of d "ce_chunk_faults e" "chunks_of CHUNK_SIZE ?records"]
  obtain new where fin: "final d (map snd ?tr) = adds d new"
    and len: "sum_list (map fst ?tr) = length new"
    and sub: "set new \<subseteq> set ?records" and le: "length new \<le> length ?records"
    and dist: "codes_distinct d \<longrightarrow> codes_distinct (adds d new)"
    by (auto simp: concat_chunks_of [OF CHUNK_SIZE_pos])
  from generateCodes_result [OF gen] le have "length new \<le> min qty SYNC_LIMIT"
    by simp
  then have bound: "b_codes_generated batch + length new \<le> b_quantity batch"
    using zero q by simp
  let ?st = "if length new \<ge> qty then Complete else Generating"
  from gen fin len
  have tr: "final d (snd (createBatch_generate e u cb qty bid batch d))
      = update_batch (ce_update_fault e) (b_id batch) (length new) ?st (adds d new)"
    by (simp add: createBatch_generate_def Let_def)
  have "ids_ok (adds d new)" "batch \<in> set (batches (adds d new))"
    using ok b by simp_all
  from update_batch_cases [OF this, of "ce_update_fault e" "length new" ?st] tr zero q
  have "final d (snd (createBatch_generate e u cb qty bid batch d)) = adds d new
      \<or> final d (snd (createBatch_generate e u cb qty bid batch d))
          = put_row (adds d new) (b_id batch)
              (batch\<lparr>b_codes_generated := b_codes_generated batch + length new,
                     b_status := (if b_codes_generated batch + length new \<ge> b_quantity batch
                                  then Complete else Generating)\<rparr>)"
    by simp
  with installment_touches [OF ok all b st rows_of_batch [OF sub] dist bound]
  show ?thesis by simp
qed

lemma batches_insert_step:
  assumes inv: "store_inv d" and ins: "batches_insert f row d = (Some batch, d0)"
    and row: "row_ok row"
  shows "store_inv d0 \<and> grows d d0 \<and> batch \<in> set (batches d0)
    \<and> batch = row\<lparr>b_id := length (batches d)\<rparr> \<and> batches d0 = batches d @ [batch]"
proof -
  from ins have batch: "batch = row\<lparr>b_id := length (batches d)\<rparr>"
    and d0: "d0 = d\<lparr>batches := batches d @ [batch]\<rparr>"
    by (auto simp: batches_insert_def Let_def split: if_splits)
  from row batch have "row_ok batch"
    by (auto simp: row_ok_def batch_ok_def)
  with inv batch d0 have "store_inv d0"
    by (simp add: store_inv_def ids_ok_def codes_distinct_def)
  moreover from d0 have "grows d d0"
    by (simp add: grows_def list_all2_refl)
  ultimately show ?thesis
    using batch d0 by simp
qed

lemma createBatch_store_step:
  assumes inv: "store_inv d" and qty: "1 \<le> qty"
  shows "store_inv (final d (snd (createBatch_store e u cb qty d)))
    \<and> grows d (final d (snd (createBatch_store e u cb qty d)))
    \<and> (no_active d \<longrightarrow> no_active (final d (snd (createBatch_store e u cb qty d))))"
proof (cases "resolveBatchId e cb d")
  case (Inl resp)
  with inv show ?thesis by (simp add: createBatch_store_def)
next
  case (Inr bid)
  let ?row = "\<lparr>b_id = 0, b_batch_id = bid, b_manufacturer_id = u,
             b_product_name = cb_productName cb,
             b_product_category = cb_productCategory cb,
             b_quantity = qty, b_codes_generated = 0, b_status = Generating\<rparr>"
  obtain x d0 where ins: "batches_insert (ce_batch_insert_fault e) ?row d = (x, d0)"
    by (cases "batches_insert (ce_batch_insert_fault e) ?row d")
  show ?thesis
  proof (cases x)
    case None
    with Inr ins inv show ?thesis by (simp add: createBatch_store_def)
  next
    case (Some batch)
    have row: "row_ok ?row"
      using qty by (simp add: row_ok_def batch_ok_def)
    note step = batches_insert_step [OF inv ins [unfolded Some] row]
    from step have inv0: "store_inv d0" by (rule conjunct1)
    from step have g0: "grows d d0" by blast
    from step have b: "batch \<in> set (batches d0)" by blast
    from step have batch: "batch = ?row\<lparr>b_id := length (batches d)\<rparr>" by blast
    let ?d' = "final d0 (snd (createBatch_generate e u cb qty bid batch d0))"
    from inv0 have ok0: "ids_ok d0" and all0: "list_all row_ok (batches d0)"
      by (simp_all add: store_inv_def)
    from step have "batches d0 = batches d @ [batch]" by blast
    with batch have na: "no_active d \<longrightarrow> no_active d0"
      by (simp add: no_active_def)
    have t: "touches_only {b_id batch} d0 ?d'"
      using createBatch_generate_touches [OF ok0 all0 b] batch by simp
    from touches_only_inv [OF t inv0] g0 have "store_inv ?d' \<and> grows d ?d'"
      by (auto intro: grows_trans)
    moreover from na touches_only_no_active [OF t] have "no_active d \<longrightarrow> no_active ?d'"
      by blast
    moreover have "final d (snd (createBatch_store e u cb qty d)) = ?d'"
      using Inr ins Some by (simp add: createBatch_store_def split: prod.splits)
    ultimately show ?thesis by simp
  qed
qed

lemma createBatch_step:
  assumes inv: "store_inv d"
  shows "store_inv (final d (snd (createBatch e r d))) \<and> grows d (final d (snd (createBatch e r d)))
    \<and> (no_active d \<longrightarrow> no_active (final d (snd (createBatch e r d))))"
proof -
  have idle: "store_inv (final d []) \<and> grows d (final d [])
      \<and> (no_active d \<longrightarrow> no_active (final d []))"
    using inv by simp
  have work: "store_inv (final d (snd (createBatch_store e u b (nat q) d)))
      \<and> grows d (final d (snd (createBatch_store e u b (nat q) d)))
      \<and> (no_active d \<longrightarrow> no_active (final d (snd (createBatch_store e u b (nat q) d))))"
    if "\<not> (q < 1 \<or> q > 100000)" for u b q
  proof -
    from that have "1 \<le> nat q" by arith
    then show ?thesis by (rule createBatch_store_step [OF inv])
  qed
  show ?thesis
    using idle work
    by (simp add: createBatch_def split: option.splits quantity_field.splits)
qed

subsection \<open>Verification\<close>

lemma codes_update_if_active_frame:
  "codes_update_if_active f c now d = (err, n, d')
   \<Longrightarrow> batches d' = batches d \<and> verifications d' = verifications d
       \<and> map c_code (codes d') = map c_code (codes d)
       \<and> map c_batch_id (codes d') = map c_batch_id (codes d)"
  by (auto simp: codes_update_if_active_def mark_verified_def split: if_splits)

lemma verify_frame:
  "batches (snd (verify e r d)) = batches d
   \<and> map c_code (codes (snd (verify e r d))) = map c_code (codes d)"
  by (auto simp: verify_def verify_finish_def verify_invalid_def verify_duplicate_def
      verify_active_def verifications_insert_def Let_def
      split: body_code.splits option.splits prod.splits
      dest: codes_update_if_active_frame)

lemma verify_step:
  "store_inv d \<Longrightarrow> store_inv (snd (verify e r d)) \<and> grows d (snd (verify e r d))"
  using verify_frame [of e r d]
  by (simp add: store_inv_def ids_ok_def codes_distinct_def grows_same_batches)

subsection \<open>Background generation\<close>

lemma codes_insert_adds:
  "codes_insert f rows d = (True, d)
   \<or> (codes_insert f rows d = (False, adds d rows)
      \<and> (codes_distinct d \<longrightarrow> codes_distinct (adds d rows)))"
  using codes_insert_cases [of f rows d] by (auto simp: adds_def codes_distinct_def)

lemma active_installment_touches:
  assumes ok: "ids_ok d" and all: "list_all row_ok (batches d)"
    and i: "i < length (batches d)" and st: "b_status (batches d ! i) = BatchActive"
    and new: "list_all (\<lambda>c. c_batch_id c = i) new"
    and dist: "codes_distinct d \<longrightarrow> codes_distinct (adds d new)"
    and lo: "b_codes_generated (batches d ! i) \<le> n" and hi: "n \<le> b_quantity (batches d ! i)"
    and d': "d' = adds d new
      \<or> d' = put_row (adds d new) i ((batches d ! i)\<lparr>b_codes_generated := n\<rparr>)"
  shows "touches_only {i} d d' \<and> b_status (batches d' ! i) = BatchActive
    \<and> b_codes_generated (batches d' ! i) \<le> n
    \<and> b_quantity (batches d' ! i) = b_quantity (batches d ! i)"
proof -
  let ?b' = "(batches d ! i)\<lparr>b_codes_generated := n\<rparr>"
  have codes: "\<forall>j. j \<notin> {i} \<longrightarrow> codes_of_batch j (adds d new) = codes_of_batch j d"
    using codes_of_batch_adds [OF new] by simp
  from d' show ?thesis
  proof
    assume "d' = adds d new"
    with ok all dist codes st lo show ?thesis
      by (simp add: touches_only_def grows_same_batches)
  next
    assume eq: "d' = put_row (adds d new) i ?b'"
    have "row_ok ?b'"
      using st hi by (simp add: row_ok_def)
    then have "list_all row_ok (batches d')"
      using all eq put_row_scheduled [of "adds d new" ?b' i] by simp
    moreover have "ids_ok d'"
      using ok eq put_row_ids_ok [of "adds d new" ?b' i] ids_ok_nth [OF ok i] by simp
    moreover have "advances (batches d ! i) ?b'"
      using lo by (simp add: advances_def)
    then have "grows d d'"
      using i eq put_row_grows [of i "adds d new" ?b'] grows_same_batches [of "adds d new" d]
      by (auto intro: grows_trans)
    moreover have "codes_distinct d \<longrightarrow> codes_distinct d'"
      using dist eq by (simp add: codes_distinct_def)
    moreover have "\<forall>j. j \<notin> {i} \<longrightarrow> codes_of_batch j d' = codes_of_batch j d"
      using codes eq by (simp add: codes_of_batch_def)
    ultimately show ?thesis
      using eq i st by (simp add: touches_only_def)
  qed
qed

lemma last_pass_db_Cons [simp]: "last_pass_db d (p # ps) = last_pass_db (p_after p) ps"
  by (simp add: last_pass_db_def)

lemma last_pass_db_Nil [simp]: "last_pass_db d [] = d"
  by (simp add: last_pass_db_def)

lemma last_pass_total_simps [simp]:
  "last_pass_total n [] = n"
  "last_pass_total n (p # ps) = last_pass_total (p_total p) ps"
  by (simp_all add: last_pass_total_def)

lemma touches_only_same: "touches_only A d d1 \<Longrightarrow> touches_only A d1 d2 \<Longrightarrow> touches_only A d d2"
  using touches_only_trans [of A d d1 A d2] by simp

lemma insert_subchunks_touches:
  assumes "ids_ok d" and "list_all row_ok (batches d)"
    and "i < length (batches d)" and "b_status (batches d ! i) = BatchActive"
    and "\<forall>c\<in>set cs. list_all (\<lambda>r. c_batch_id r = i) c"
    and "b_codes_generated (batches d ! i) \<le> tot"
    and "tot + sum_list (map length cs) \<le> b_quantity (batches d ! i)"
  shows "touches_only {i} d (last_pass_db d (insert_subchunks ifs ufs i tot cs d))
    \<and> b_status (batches (last_pass_db d (insert_subchunks ifs ufs i tot cs d)) ! i) = BatchActive
    \<and> b_codes_generated (batches (last_pass_db d (insert_subchunks ifs ufs i tot cs d)) ! i)
        \<le> last_pass_total tot (insert_subchunks ifs ufs i tot cs d)
    \<and> last_pass_total tot (insert_subchunks ifs ufs i tot cs d) \<le> tot + sum_list (map length cs)"
  using assms
proof (induction cs arbitrary: ifs ufs tot d)
  case Nil
  then show ?case by (simp add: touches_only_refl)
next
  case (Cons c cs)
  let ?row = "batches d ! i"
  have rows: "list_all (\<lambda>r. c_batch_id r = i) c"
    and rest: "\<forall>c\<in>set cs. list_all (\<lambda>r. c_batch_id r = i) c"
    using Cons.prems(5) by simp_all
  have row: "?row \<in> set (batches d)" "b_id ?row = i"
    using Cons.prems(1,3) by (simp_all add: ids_ok_nth)
  have lo: "b_codes_generated ?row \<le> tot"
    and hi: "tot + length c + sum_list (map length cs) \<le> b_quantity ?row"
    using Cons.prems(6,7) by simp_all
  obtain err d1 where ins: "codes_insert (next_fault ifs) c d = (err, d1)"
    by (cases "codes_insert (next_fault ifs) c d")
  let ?tot = "if err then tot else tot + length c"
  let ?d2 = "if err then d1 else update_batch_count (next_fault ufs) i ?tot d1"
  have step: "touches_only {i} d ?d2 \<and> b_status (batches ?d2 ! i) = BatchActive
      \<and> b_codes_generated (batches ?d2 ! i) \<le> ?tot
      \<and> b_quantity (batches ?d2 ! i) = b_quantity ?row"
  proof (cases err)
    case True
    with ins codes_insert_adds [of "next_fault ifs" c d] have "d1 = d" by auto
    with True Cons.prems(1-4) lo show ?thesis by (simp add: touches_only_refl)
  next
    case False
    with ins codes_insert_adds [of "next_fault ifs" c d]
    have d1: "d1 = adds d c" and dist: "codes_distinct d \<longrightarrow> codes_distinct (adds d c)"
      by auto
    have "ids_ok (adds d c)" "?row \<in> set (batches (adds d c))"
      using Cons.prems(1) row by simp_all
    from update_batch_count_cases [OF this, of "next_fault ufs" ?tot] row(2) d1 False
    have d2: "?d2 = adds d c \<or> ?d2 = put_row (adds d c) i (?row\<lparr>b_codes_generated := ?tot\<rparr>)"
      by simp
    have lo': "b_codes_generated ?row \<le> ?tot" and hi': "?tot \<le> b_quantity ?row"
      using lo hi False by simp_all
    from active_installment_touches [OF Cons.prems(1,2,3,4) rows dist lo' hi' d2]
    show ?thesis .
  qed
  then have t: "touches_only {i} d ?d2" and st2: "b_status (batches ?d2 ! i) = BatchActive"
    and lo2: "b_codes_generated (batches ?d2 ! i) \<le> ?tot"
    and q2: "b_quantity (batches ?d2 ! i) = b_quantity ?row"
    by blast+
  from t have ok2: "ids_ok ?d2" and all2: "list_all row_ok (batches ?d2)"
    and len2: "length (batches ?d2) = length (batches d)"
    by (simp_all add: touches_only_def)
  from len2 Cons.prems(3) have i2: "i < length (batches ?d2)" by simp
  have hi2: "?tot + sum_list (map length cs) \<le> b_quantity (batches ?d2 ! i)"
    using hi q2 by simp
  note IH = Cons.IH [OF ok2 all2 i2 st2 rest lo2 hi2, of "tl ifs" "tl ufs"]
  have unfold: "last_pass_db d (insert_subchunks ifs ufs i tot (c # cs) d)
      = last_pass_db ?d2 (insert_subchunks (tl ifs) (tl ufs) i ?tot cs ?d2)"
    "last_pass_total tot (insert_subchunks ifs ufs i tot (c # cs) d)
      = last_pass_total ?tot (insert_subchunks (tl ifs) (tl ufs) i ?tot cs ?d2)"
    using ins by (simp_all add: Let_def)
  have "?tot + sum_list (map length cs) \<le> tot + sum_list (map length (c # cs))"
    by simp
  with IH t show ?case
    unfolding unfold by (blast intro: touches_only_same le_trans)
qed

lemma pass_stores_append [simp]: "pass_stores (a @ b) = pass_stores a @ pass_stores b"
  by (simp add: pass_stores_def)

lemma final_pass_stores:
  "final d (pass_stores (insert_subchunks ifs ufs i tot cs d))
   = last_pass_db d (insert_subchunks ifs ufs i tot cs d)"
proof (induction cs arbitrary: ifs ufs tot d)
  case Nil
  show ?case by (simp add: pass_stores_def)
next
  case (Cons c cs)
  obtain err d1 where ins: "codes_insert (next_fault ifs) c d = (err, d1)"
    by (cases "codes_insert (next_fault ifs) c d")
  let ?tot = "if err then tot else tot + length c"
  let ?d2 = "if err then d1 else update_batch_count (next_fault ufs) i ?tot d1"
  have "final d (pass_stores (insert_subchunks ifs ufs i tot (c # cs) d))
      = final ?d2 (pass_stores (insert_subchunks (tl ifs) (tl ufs) i ?tot cs ?d2))"
    using ins by (simp add: pass_stores_def Let_def)
  also have "\<dots> = last_pass_db ?d2 (insert_subchunks (tl ifs) (tl ufs) i ?tot cs ?d2)"
    by (rule Cons.IH)
  also have "\<dots> = last_pass_db d (insert_subchunks ifs ufs i tot (c # cs) d)"
    using ins by (simp add: Let_def)
  finally show ?case .
qed

lemma chunk_rows:
  "\<forall>c\<in>set (chunks_of n (buildRecords cs i u)). list_all (\<lambda>r. c_batch_id r = i) c"
proof (cases "0 < n")
  case True
  have "set c \<subseteq> set (concat (chunks_of n (buildRecords cs i u)))"
    if "c \<in> set (chunks_of n (buildRecords cs i u))" for c
    using that by auto
  with True show ?thesis
    by (auto simp: concat_chunks_of list_all_iff dest: buildRecords_batch)
next
  case False
  then show ?thesis by (simp add: chunks_of.simps [of 0])
qed

lemma candidates_loop_length:
  "candidates_loop n m a cs src = Some (cs', src') \<Longrightarrow> length cs \<le> n \<Longrightarrow> length cs' \<le> n"
proof (induction n m a cs src rule: candidates_loop.induct)
  case (1 n maxAttempts attempts s src)
  show ?case
  proof (cases "length s < n \<and> attempts < maxAttempts")
    case False
    with "1.prems" show ?thesis
      by (simp add: candidates_loop.simps [of n maxAttempts attempts s src])
  next
    case True
    with "1.prems"(1) obtain bytes src1 where rb: "randomBytes 12 src = Some (bytes, src1)"
      and rec: "candidates_loop n maxAttempts (attempts + 1) (set_add s (generateCode bytes)) src1
          = Some (cs', src')"
      by (auto simp: candidates_loop.simps [of n maxAttempts attempts s src] split: option.splits)
    from True set_add_length [of s "generateCode bytes"]
    have "length (set_add s (generateCode bytes)) \<le> n"
      by simp
    with "1.IH" [OF True rb refl rec] show ?thesis .
  qed
qed

lemma replace_loop_length:
  "replace_loop n ex fc src = Some (fc', src') \<Longrightarrow> length fc \<le> n \<Longrightarrow> length fc' \<le> n"
proof (induction n ex fc src rule: replace_loop.induct)
  case (1 n existing finalCodes src)
  show ?case
  proof (cases "length finalCodes < n")
    case False
    with "1.prems" show ?thesis
      by (simp add: replace_loop.simps [of n existing finalCodes src])
  next
    case True
    let ?next = "\<lambda>bytes. if generateCode bytes \<notin> set finalCodes \<and> generateCode bytes \<notin> set existing
                then finalCodes @ [generateCode bytes] else finalCodes"
    from True "1.prems"(1) obtain bytes src1 where rb: "randomBytes 12 src = Some (bytes, src1)"
      and rec: "replace_loop n existing (?next bytes) src1 = Some (fc', src')"
      by (auto simp: replace_loop.simps [of n existing finalCodes src] split: option.splits)
    from True have "length (?next bytes) \<le> n"
      by simp
    with "1.IH" [OF True rb refl rec] show ?thesis .
  qed
qed

lemma chunks_of_total: "0 < n \<Longrightarrow> sum_list (map length (chunks_of n xs)) = length xs"
  using concat_chunks_of [of n xs] length_concat [of "chunks_of n xs"] by simp

lemma touches_only_quantity:
  "touches_only ids d d' \<Longrightarrow> i < length (batches d)
   \<Longrightarrow> b_quantity (batches d' ! i) = b_quantity (batches d ! i)"
  by (simp add: touches_only_def grows_nth advances_def)

lemma bg_chunk_inv:
  assumes inv: "bg_inv d0 i s" and i: "i < length (batches d0)"
    and room: "s_totalGenerated s + n \<le> b_quantity (batches d0 ! i)"
    and run: "bg_chunk n i u s = Some s'"
  shows "bg_inv d0 i s' \<and> s_totalGenerated s' \<le> s_totalGenerated s + n"
proof -
  from run obtain codesArray src1 finalCodes src2 where
    cand: "candidates_loop n (n * 3) 0 [] (s_entropy s) = Some (codesArray, src1)"
    and repl: "replace_loop n
        (existing_codes (next_fault (s_select_faults s)) codesArray (s_db s))
        (filter (\<lambda>c. c \<notin> set (existing_codes (next_fault (s_select_faults s)) codesArray (s_db s)))
           codesArray) src1 = Some (finalCodes, src2)"
    and s': "s' = \<lparr>s_entropy = src2, s_select_faults = tl (s_select_faults s),
      s_insert_faults = drop (length (chunks_of 500 (buildRecords finalCodes i u))) (s_insert_faults s),
      s_update_faults = drop (length (chunks_of 500 (buildRecords finalCodes i u))) (s_update_faults s),
      s_totalGenerated = last_pass_total (s_totalGenerated s)
        (insert_subchunks (s_insert_faults s) (s_update_faults s) i (s_totalGenerated s)
           (chunks_of 500 (buildRecords finalCodes i u)) (s_db s)),
      s_db = last_pass_db (s_db s)
        (insert_subchunks (s_insert_faults s) (s_update_faults s) i (s_totalGenerated s)
           (chunks_of 500 (buildRecords finalCodes i u)) (s_db s)),
      s_passes = s_passes s @
        insert_subchunks (s_insert_faults s) (s_update_faults s) i (s_totalGenerated s)
           (chunks_of 500 (buildRecords finalCodes i u)) (s_db s)\<rparr>"
    by (auto simp: bg_chunk_def Let_def split: option.splits)
  let ?subs = "chunks_of 500 (buildRecords finalCodes i u)"
  let ?ps = "insert_subchunks (s_insert_faults s) (s_update_faults s) i (s_totalGenerated s)
           ?subs (s_db s)"
  from candidates_loop_length [OF cand] have "length codesArray \<le> n"
    by simp
  then have "length (filter (\<lambda>c. c \<notin> set (existing_codes (next_fault (s_select_faults s))
      codesArray (s_db s))) codesArray) \<le> n"
    using length_filter_le [of _ codesArray] by (rule le_trans [rotated])
  with replace_loop_length [OF repl] have few: "length finalCodes \<le> n" .
  have total: "sum_list (map length ?subs) = length finalCodes"
    by (simp add: chunks_of_total)
  from inv have t: "touches_only {i} d0 (s_db s)"
    and st: "b_status (batches (s_db s) ! i) = BatchActive"
    and lo: "b_codes_generated (batches (s_db s) ! i) \<le> s_totalGenerated s"
    and fin: "s_db s = final d0 (pass_stores (s_passes s))"
    unfolding bg_inv_def by blast+
  from t have ok: "ids_ok (s_db s)" and all: "list_all row_ok (batches (s_db s))"
    and len: "length (batches (s_db s)) = length (batches d0)"
    by (simp_all add: touches_only_def)
  from len i have i': "i < length (batches (s_db s))" by simp
  have hi: "s_totalGenerated s + sum_list (map length ?subs) \<le> b_quantity (batches (s_db s) ! i)"
    using room few total touches_only_quantity [OF t i] by simp
  from insert_subchunks_touches [OF ok all i' st chunk_rows [of 500 finalCodes i u] lo hi,
      where ifs = "s_insert_faults s" and ufs = "s_update_faults s"]
  have t': "touches_only {i} (s_db s) (last_pass_db (s_db s) ?ps)"
    and st': "b_status (batches (last_pass_db (s_db s) ?ps) ! i) = BatchActive"
    and lo': "b_codes_generated (batches (last_pass_db (s_db s) ?ps) ! i)
        \<le> last_pass_total (s_totalGenerated s) ?ps"
    and hi': "last_pass_total (s_totalGenerated s) ?ps
        \<le> s_totalGenerated s + sum_list (map length ?subs)"
    by blast+
  have "final d0 (pass_stores (s_passes s @ ?ps)) = last_pass_db (s_db s) ?ps"
    using fin final_pass_stores [of "s_db s"] by simp
  with touches_only_same [OF t t'] st' lo' s' have "bg_inv d0 i s'"
    by (simp add: bg_inv_def)
  moreover from hi' few total s' have "s_totalGenerated s' \<le> s_totalGenerated s + n"
    by simp
  ultimately show ?thesis ..
qed

lemma bg_loop_inv:
  "bg_inv d0 i s \<Longrightarrow> i < length (batches d0) \<Longrightarrow> b_quantity (batches d0 ! i) = q
   \<Longrightarrow> s_totalGenerated s \<le> min off q \<Longrightarrow> bg_inv d0 i (fst (bg_loop q i u off s))"
proof (induction q i u off s rule: bg_loop.induct)
  case (1 quantity batchUUID userId offset s)
  show ?case
  proof (cases "offset < quantity")
    case False
    with "1.prems" show ?thesis
      by (simp add: bg_loop.simps [of quantity batchUUID userId offset s])
  next
    case True
    show ?thesis
    proof (cases "bg_chunk (min 5000 (quantity - offset)) batchUUID userId s")
      case None
      with True "1.prems" show ?thesis
        by (simp add: bg_loop.simps [of quantity batchUUID userId offset s])
    next
      case (Some s')
      have room: "s_totalGenerated s + min 5000 (quantity - offset)
          \<le> b_quantity (batches d0 ! batchUUID)"
        using True "1.prems"(3,4) by arith
      from bg_chunk_inv [OF "1.prems"(1,2) room Some]
      have inv': "bg_inv d0 batchUUID s'"
        and tot': "s_totalGenerated s' \<le> s_totalGenerated s + min 5000 (quantity - offset)"
        by blast+
      from tot' True "1.prems"(4) have "s_totalGenerated s' \<le> min (offset + 5000) quantity"
        by arith
      from "1.IH" [OF True Some inv' "1.prems"(2,3) this] True Some show ?thesis
        by (simp add: bg_loop.simps [of quantity batchUUID userId offset s])
    qed
  qed
qed

lemma createBatchBackground_step:
  assumes inv: "store_inv d"
  shows "store_inv (final d (snd (createBatchBackground e r d)))
    \<and> grows d (final d (snd (createBatchBackground e r d)))"
proof -
  have idle: "store_inv (final d []) \<and> grows d (final d [])"
    using inv by simp
  have work: "store_inv (final d0 (pass_stores (s_passes (fst (generateCodesInBackground e batch q u d0)))))
      \<and> grows d (final d0 (pass_stores (s_passes (fst (generateCodesInBackground e batch q u d0)))))"
    if ins: "batches_insert (bg_batch_insert_fault e)
        \<lparr>b_id = 0, b_batch_id = bg_batch_id e, b_manufacturer_id = u,
         b_product_name = pn, b_product_category = pc,
         b_quantity = q, b_codes_generated = 0, b_status = BatchActive\<rparr> d = (Some batch, d0)"
    for batch d0 q u pn pc
  proof -
    let ?row = "\<lparr>b_id = 0, b_batch_id = bg_batch_id e, b_manufacturer_id = u,
         b_product_name = pn, b_product_category = pc,
         b_quantity = q, b_codes_generated = 0, b_status = BatchActive\<rparr>"
    have row: "row_ok ?row" by (simp add: row_ok_def)
    note step = batches_insert_step [OF inv ins row]
    from step have inv0: "store_inv d0" by (rule conjunct1)
    from step have g0: "grows d d0" by blast
    from step have b: "batch \<in> set (batches d0)" by blast
    from step have batch: "batch = ?row\<lparr>b_id := length (batches d)\<rparr>" by blast
    from inv0 have ok0: "ids_ok d0" and all0: "list_all row_ok (batches d0)"
      by (simp_all add: store_inv_def)
    from ids_ok_member [OF ok0 b] have i: "b_id batch < length (batches d0)"
      and at: "batches d0 ! b_id batch = batch" by simp_all
    let ?s0 = "\<lparr>s_entropy = bg_entropy e, s_select_faults = bg_select_faults e,
        s_insert_faults = bg_insert_faults e, s_update_faults = bg_update_faults e,
        s_totalGenerated = 0, s_db = d0, s_passes = []\<rparr>"
    have "bg_inv d0 (b_id batch) ?s0"
      using ok0 all0 at batch by (simp add: bg_inv_def touches_only_refl pass_stores_def)
    moreover have "b_quantity (batches d0 ! b_id batch) = q"
      using at batch by simp
    moreover have "s_totalGenerated ?s0 \<le> min 0 q"
      by simp
    ultimately have fin: "bg_inv d0 (b_id batch) (fst (generateCodesInBackground e batch q u d0))"
      unfolding generateCodesInBackground_def by (intro bg_loop_inv i)
    let ?s = "fst (generateCodesInBackground e batch q u d0)"
    from fin have "touches_only {b_id batch} d0 (s_db ?s)"
      and eq: "s_db ?s = final d0 (pass_stores (s_passes ?s))"
      unfolding bg_inv_def by blast+
    from touches_only_inv [OF this(1) inv0] g0 eq show ?thesis
      by (auto intro: grows_trans)
  qed
  show ?thesis
    using idle work
    by (auto simp: createBatchBackground_def
        split: option.splits quantity_field.splits prod.splits)
qed

subsection \<open>Runs\<close>

lemma scheduledGeneration_step:
  assumes inv: "store_inv d"
  shows "store_inv (final d (snd (scheduledGeneration e d)))
    \<and> grows d (final d (snd (scheduledGeneration e d)))"
proof -
  from inv have "ids_ok d" "list_all row_ok (batches d)"
    by (simp_all add: store_inv_def)
  from scheduledGeneration_touches [OF this, of e] inv show ?thesis
    by (rule touches_only_inv)
qed

lemma apply_event_step:
  "store_inv d \<Longrightarrow> store_inv (apply_event ev d) \<and> grows d (apply_event ev d)"
proof (cases ev)
  case (CreateBatch e r)
  assume "store_inv d"
  from createBatch_step [OF this, of e r] CreateBatch show ?thesis by simp
next
  case (CreateBatchBackground e r)
  assume "store_inv d"
  from createBatchBackground_step [OF this, of e r] CreateBatchBackground show ?thesis by simp
next
  case (ScheduledGeneration e)
  assume "store_inv d"
  from scheduledGeneration_step [OF this, of e] ScheduledGeneration show ?thesis by simp
next
  case (Verify e r)
  assume "store_inv d"
  from verify_step [OF this, of e r] Verify show ?thesis by simp
qed

lemma store_inv_empty: "store_inv empty_db"
  by (simp add: store_inv_def empty_db_def ids_ok_def codes_distinct_def)

lemma run_Nil [simp]: "run [] d = d"
  by (simp add: run_def)

lemma run_Cons [simp]: "run (ev # evs) d = run evs (apply_event ev d)"
  by (simp add: run_def)

lemma run_append [simp]: "run (evs @ evs') d = run evs' (run evs d)"
  by (simp add: run_def)

lemma run_inv: "store_inv d \<Longrightarrow> store_inv (run evs d)"
  by (induction evs arbitrary: d) (simp_all add: apply_event_step)





lemma complete_not_generating:
  assumes ok: "ids_ok d" and b: "b \<in> set (batches d)" and st: "b_status b = Complete"
  shows "b_id b \<notin> b_id ` {x \<in> set (batches d). b_status x = Generating}"
proof
  assume "b_id b \<in> b_id ` {x \<in> set (batches d). b_status x = Generating}"
  then obtain x where x: "x \<in> set (batches d)" "b_status x = Generating" "b_id x = b_id b"
    by auto
  from ids_ok_member [OF ok x(1)] ids_ok_member [OF ok b] x(3) have "x = b"
    by metis
  with x(2) st show False by simp
qed

lemma tick_keeps_complete:
  assumes inv: "store_inv d" and b: "b \<in> set (batches d)" and st: "b_status b = Complete"
  shows "store_inv (apply_event (ScheduledGeneration e) d)
    \<and> b \<in> set (batches (apply_event (ScheduledGeneration e) d))
    \<and> codes_of_batch (b_id b) (apply_event (ScheduledGeneration e) d) = codes_of_batch (b_id b) d"
proof -
  let ?G = "b_id ` {x \<in> set (batches d). b_status x = Generating}"
  let ?d' = "final d (snd (scheduledGeneration e d))"
  from inv have ok: "ids_ok d" and all: "list_all row_ok (batches d)"
    by (simp_all add: store_inv_def)
  have t: "touches_only ?G d ?d'"
    using ok all by (rule scheduledGeneration_touches)
  have out: "b_id b \<notin> ?G"
    using ok b st by (rule complete_not_generating)
  from t out have "codes_of_batch (b_id b) ?d' = codes_of_batch (b_id b) d"
    by (simp add: touches_only_def)
  moreover have "b \<in> set (batches ?d')"
    using t ok b out by (rule touches_only_keeps)
  moreover have "store_inv ?d'"
    using touches_only_inv [OF t inv] by simp
  ultimately show ?thesis by simp
qed

lemma ticks_keep_complete:
  "store_inv d \<Longrightarrow> b \<in> set (batches d) \<Longrightarrow> b_status b = Complete
   \<Longrightarrow> b \<in> set (batches (run (map ScheduledGeneration ticks) d))
     \<and> codes_of_batch (b_id b) (run (map ScheduledGeneration ticks) d) = codes_of_batch (b_id b) d"
proof (induction ticks arbitrary: d)
  case Nil
  then show ?case by simp
next
  case (Cons e ticks)
  let ?d1 = "apply_event (ScheduledGeneration e) d"
  from tick_keeps_complete [OF Cons.prems, of e]
  have inv1: "store_inv ?d1" and b1: "b \<in> set (batches ?d1)"
    and c1: "codes_of_batch (b_id b) ?d1 = codes_of_batch (b_id b) d"
    by blast+
  from Cons.IH [OF inv1 b1 Cons.prems(3)] c1 show ?case
    by simp
qed


subsection \<open>Chunk counts\<close>



lemma update_batch_codes [simp]:
  "codes (update_batch f i n st d) = codes d"
  "verifications (update_batch f i n st d) = verifications d"
  by (simp_all add: update_batch_def)

lemma update_batch_count_codes [simp]:
  "codes (update_batch_count f i n d) = codes d"
  "verifications (update_batch_count f i n d) = verifications d"
  by (simp_all add: update_batch_count_def)


subsection \<open>Code rows are only added or verified\<close>

lemma insert_chunks_prefix:
  "prefix (codes d) (codes (final d (map snd (insert_chunks fs cs d))))"
  using insert_chunks_effect [of d fs cs] by auto

lemma createBatch_generate_prefix:
  "prefix (codes d) (codes (final d (snd (createBatch_generate e u cb qty bid batch d))))"
  by (cases "generateCodes (min qty SYNC_LIMIT) (ce_entropy e)")
     (auto simp: createBatch_generate_def Let_def insert_chunks_prefix)

lemma batches_insert_codes:
  "codes (snd (batches_insert f row d)) = codes d"
  by (simp add: batches_insert_def Let_def)

lemma createBatch_store_prefix:
  "prefix (codes d) (codes (final d (snd (createBatch_store e u cb qty d))))"
proof (cases "resolveBatchId e cb d")
  case (Inl resp)
  then show ?thesis by (simp add: createBatch_store_def)
next
  case (Inr bid)
  let ?row = "\<lparr>b_id = 0, b_batch_id = bid, b_manufacturer_id = u,
             b_product_name = cb_productName cb,
             b_product_category = cb_productCategory cb,
             b_quantity = qty, b_codes_generated = 0, b_status = Generating\<rparr>"
  obtain x d0 where ins: "batches_insert (ce_batch_insert_fault e) ?row d = (x, d0)"
    by (cases "batches_insert (ce_batch_insert_fault e) ?row d")
  with batches_insert_codes [of "ce_batch_insert_fault e" ?row d] have same: "codes d0 = codes d"
    by simp
  show ?thesis
  proof (cases x)
    case None
    with Inr ins show ?thesis by (simp add: createBatch_store_def)
  next
    case (Some batch)
    with Inr ins same createBatch_generate_prefix [of d0 e u cb qty bid batch]
    show ?thesis
      by (auto simp: createBatch_store_def split: prod.splits)
  qed
qed

lemma createBatch_prefix:
  "prefix (codes d) (codes (final d (snd (createBatch e r d))))"
  by (simp add: createBatch_def createBatch_store_prefix
      split: option.splits quantity_field.splits)

lemma process_batch_prefix:
  "process_batch e batch d = Some (res, tr) \<Longrightarrow> prefix (codes d) (codes (final d tr))"
  by (auto simp: process_batch_def Let_def insert_chunks_prefix split: option.splits)

lemma process_batches_prefix:
  "prefix (codes d) (codes (final d (snd (process_batches es bs d))))"
proof (induction bs arbitrary: es d)
  case Nil
  show ?case by simp
next
  case (Cons batch bs)
  show ?case
  proof (cases "process_batch (next_env es) batch d")
    case None
    then show ?thesis by simp
  next
    case (Some p)
    obtain res tr where p: "p = (res, tr)" by (cases p)
    from Some p have "prefix (codes d) (codes (final d tr))"
      by (simp add: process_batch_prefix)
    moreover have "prefix (codes (final d tr))
        (codes (final (final d tr) (snd (process_batches (tl es) bs (final d tr)))))"
      by (rule Cons.IH)
    ultimately show ?thesis
      using Some p by (auto split: prod.splits intro: prefix_order.trans)
  qed
qed

lemma scheduledGeneration_prefix:
  "prefix (codes d) (codes (final d (snd (scheduledGeneration e d))))"
proof -
  let ?all = "filter (\<lambda>b. b_status b = Generating) (batches d)"
  let ?bs = "take 10 (filter (\<lambda>b. b_codes_generated b < b_quantity b) ?all)"
  show ?thesis
  proof (cases "te_fetch_fault e \<or> ?all = [] \<or> ?bs = []")
    case True
    then show ?thesis
      by (auto simp: scheduledGeneration_def Let_def)
  next
    case False
    then have "final d (snd (scheduledGeneration e d))
        = final d (snd (process_batches (te_batches e) ?bs d))"
      by (simp add: scheduledGeneration_def Let_def split: prod.splits option.splits)
    then show ?thesis
      by (simp add: process_batches_prefix)
  qed
qed


lemma count_written:
  "list_all (\<lambda>b. b_id b = i \<longrightarrow> b_codes_generated b = n)
     (map (\<lambda>b. if b_id b = i then b\<lparr>b_codes_generated := n\<rparr> else b) xs)"
  by (induction xs) simp_all

lemma update_batch_count_sets:
  "\<not> f \<Longrightarrow> list_all (\<lambda>b. b_id b = i \<longrightarrow> b_codes_generated b = n)
      (batches (update_batch_count f i n d))"
  by (simp add: update_batch_count_def count_written)

lemma insert_subchunks_counts:
  assumes "prefix (codes d0) (codes d)" and "length (codes d) = length (codes d0) + tot"
  shows "list_all (pass_counts d0 i) (insert_subchunks ifs ufs i tot cs d)
    \<and> prefix (codes d0) (codes (last_pass_db d (insert_subchunks ifs ufs i tot cs d)))
    \<and> length (codes (last_pass_db d (insert_subchunks ifs ufs i tot cs d)))
        = length (codes d0) + last_pass_total tot (insert_subchunks ifs ufs i tot cs d)"
  using assms
proof (induction cs arbitrary: ifs ufs tot d)
  case Nil
  then show ?case by simp
next
  case (Cons c cs)
  from codes_insert_adds [of "next_fault ifs" c d] show ?case
  proof
    assume ins: "codes_insert (next_fault ifs) c d = (True, d)"
    let ?p = "\<lparr>p_inserted = False, p_update_fault = next_fault ufs, p_total = tot,
               p_after_insert = d, p_after = d\<rparr>"
    have p: "pass_counts d0 i ?p"
      using Cons.prems by (simp add: pass_counts_def)
    have unfold: "insert_subchunks ifs ufs i tot (c # cs) d
        = ?p # insert_subchunks (tl ifs) (tl ufs) i tot cs d"
      using ins by simp
    from Cons.IH [OF Cons.prems, of "tl ifs" "tl ufs"] p show ?thesis
      unfolding unfold by simp
  next
    assume "codes_insert (next_fault ifs) c d = (False, adds d c)
      \<and> (codes_distinct d \<longrightarrow> codes_distinct (adds d c))"
    then have ins: "codes_insert (next_fault ifs) c d = (False, adds d c)" ..
    let ?tot = "tot + length c"
    let ?d2 = "update_batch_count (next_fault ufs) i ?tot (adds d c)"
    let ?p = "\<lparr>p_inserted = True, p_update_fault = next_fault ufs, p_total = ?tot,
               p_after_insert = adds d c, p_after = ?d2\<rparr>"
    have pre: "prefix (codes d0) (codes ?d2)"
      using Cons.prems(1) by simp
    have len: "length (codes ?d2) = length (codes d0) + ?tot"
      using Cons.prems(2) by simp
    have p: "pass_counts d0 i ?p"
      using pre len update_batch_count_sets [of "next_fault ufs" i ?tot "adds d c"]
      by (simp add: pass_counts_def)
    have unfold: "insert_subchunks ifs ufs i tot (c # cs) d
        = ?p # insert_subchunks (tl ifs) (tl ufs) i ?tot cs ?d2"
      using ins by (simp add: Let_def)
    from Cons.IH [OF pre len, of "tl ifs" "tl ufs"] p show ?thesis
      unfolding unfold by simp
  qed
qed

lemma bg_chunk_frame:
  assumes inv: "bg_frame d0 i s" and run: "bg_chunk n i u s = Some s'"
  shows "bg_frame d0 i s'"
proof -
  from run obtain finalCodes where
    db: "s_db s' = last_pass_db (s_db s)
        (insert_subchunks (s_insert_faults s) (s_update_faults s) i (s_totalGenerated s)
           (chunks_of 500 (buildRecords finalCodes i u)) (s_db s))"
    and tot: "s_totalGenerated s' = last_pass_total (s_totalGenerated s)
        (insert_subchunks (s_insert_faults s) (s_update_faults s) i (s_totalGenerated s)
           (chunks_of 500 (buildRecords finalCodes i u)) (s_db s))"
    and ps: "s_passes s' = s_passes s @
        insert_subchunks (s_insert_faults s) (s_update_faults s) i (s_totalGenerated s)
           (chunks_of 500 (buildRecords finalCodes i u)) (s_db s)"
    by (auto simp: bg_chunk_def Let_def split: option.splits)
  let ?ps = "insert_subchunks (s_insert_faults s) (s_update_faults s) i (s_totalGenerated s)
           (chunks_of 500 (buildRecords finalCodes i u)) (s_db s)"
  from inv have fin: "s_db s = final d0 (pass_stores (s_passes s))"
    and pre: "prefix (codes d0) (codes (s_db s))"
    and len: "length (codes (s_db s)) = length (codes d0) + s_totalGenerated s"
    and all: "list_all (pass_counts d0 i) (s_passes s)"
    unfolding bg_frame_def by blast+
  note step = insert_subchunks_counts [OF pre len, of i "s_insert_faults s" "s_update_faults s"
      "chunks_of 500 (buildRecords finalCodes i u)"]
  have "final d0 (pass_stores (s_passes s @ ?ps)) = last_pass_db (s_db s) ?ps"
    using fin final_pass_stores [of "s_db s"] by simp
  with step all db tot ps show ?thesis
    by (simp add: bg_frame_def)
qed

lemma bg_loop_frame:
  "bg_frame d0 i s \<Longrightarrow> bg_frame d0 i (fst (bg_loop q i u off s))"
proof (induction q i u off s rule: bg_loop.induct)
  case (1 quantity batchUUID userId offset s)
  show ?case
  proof (cases "offset < quantity")
    case False
    with "1.prems" show ?thesis
      by (simp add: bg_loop.simps [of quantity batchUUID userId offset s])
  next
    case True
    show ?thesis
    proof (cases "bg_chunk (min 5000 (quantity - offset)) batchUUID userId s")
      case None
      with True "1.prems" show ?thesis
        by (simp add: bg_loop.simps [of quantity batchUUID userId offset s])
    next
      case (Some s')
      from bg_chunk_frame [OF "1.prems" Some] have "bg_frame d0 batchUUID s'" .
      from "1.IH" [OF True Some this] True Some show ?thesis
        by (simp add: bg_loop.simps [of quantity batchUUID userId offset s])
    qed
  qed
qed

lemma generateCodesInBackground_frame:
  "bg_frame d (b_id batch) (fst (generateCodesInBackground e batch q u d))"
proof -
  have "bg_frame d (b_id batch)
      \<lparr>s_entropy = bg_entropy e, s_select_faults = bg_select_faults e,
       s_insert_faults = bg_insert_faults e, s_update_faults = bg_update_faults e,
       s_totalGenerated = 0, s_db = d, s_passes = []\<rparr>"
    by (simp add: bg_frame_def pass_stores_def)
  then show ?thesis
    unfolding generateCodesInBackground_def by (rule bg_loop_frame)
qed

lemma createBatchBackground_prefix:
  "prefix (codes d) (codes (final d (snd (createBatchBackground e r d))))"
proof -
  have work: "prefix (codes d)
      (codes (final d0 (pass_stores (s_passes (fst (generateCodesInBackground e batch q u d0))))))"
    if "batches_insert f row d = (Some batch, d0)" for f row batch d0 q u
  proof -
    from that batches_insert_codes [of f row d] have same: "codes d0 = codes d"
      by simp
    from generateCodesInBackground_frame [of d0 batch e q u] same show ?thesis
      unfolding bg_frame_def by metis
  qed
  show ?thesis
    using work
    by (auto simp: createBatchBackground_def
        split: option.splits quantity_field.splits prod.splits)
qed

lemma verifies_map:
  "list_all2 stays_or_verifies xs
     (map (\<lambda>r. if c_code r = c \<and> c_status r = Active then mark_verified now r else r) xs)"
  by (induction xs) (simp_all add: stays_or_verifies_def mark_verified_def)

lemma stays_refl: "list_all2 stays_or_verifies xs xs"
  by (simp add: list_all2_refl stays_or_verifies_def)

lemma verify_finish_codes:
  "codes (snd (verify_finish e r c looked d)) = codes d
   \<or> codes (snd (verify_finish e r c looked d))
       = codes (snd (snd (codes_update_if_active (ve_update_fault e) c (ve_now e) d)))"
  by (auto simp: verify_finish_def verify_invalid_def verify_duplicate_def verify_active_def
      verifications_insert_def split: option.splits prod.splits)

lemma verify_finish_moves:
  "list_all2 stays_or_verifies (codes d) (codes (snd (verify_finish e r c looked d)))"
  using verify_finish_codes [of e r c looked d]
  by (auto simp: codes_update_if_active_def stays_refl verifies_map)

lemma verify_moves:
  "list_all2 stays_or_verifies (codes d) (codes (snd (verify e r d)))"
  by (simp add: verify_def stays_refl verify_finish_moves Let_def split: body_code.splits)

subsection \<open>The document store\<close>

lemma first_code_Some:
  assumes "first_code P m = Some (i, doc)"
  shows "i < length (m_codes m) \<and> m_codes m ! i = doc \<and> P doc"
proof -
  let ?ps = "zip [0..<length (m_codes m)] (m_codes m)"
  from assms obtain k where k: "k < length ?ps" and p: "P (snd (?ps ! k))"
    and at: "(i, doc) = ?ps ! k"
    unfolding first_code_def find_Some_iff by blast
  from k have "k < length (m_codes m)" by simp
  with at p show ?thesis by simp
qed

lemma update_code_rel:
  assumes same: "\<And>x. P x x"
    and step: "i < length (m_codes m) \<Longrightarrow> P (m_codes m ! i) (f (m_codes m ! i))"
  shows "list_all2 P (m_codes m) (m_codes (update_code i f m))"
proof (cases "i < length (m_codes m)")
  case True
  have "list_all2 P (m_codes m) (m_codes m)"
    using same by (simp add: list_all2_refl)
  with step [OF True]
  have "list_all2 P ((m_codes m)[i := m_codes m ! i]) ((m_codes m)[i := f (m_codes m ! i)])"
    by (intro list_all2_update_cong)
  with True show ?thesis
    by (simp add: update_code_def)
next
  case False
  then show ?thesis
    using same by (simp add: update_code_def list_all2_refl)
qed

lemma m_codes_frame [simp]:
  "m_codes (update_batch_doc i f m) = m_codes m"
  "m_codes (logVerification c codeId method res now batchId manufacturerId m) = m_codes m"
  by (simp_all add: update_batch_doc_def logVerification_def)

lemma verifyCode_finish_codes:
  "m_codes (snd (verifyCode_finish now c method found m)) = m_codes m
   \<or> (\<exists>f. found = Some f \<and> cd_status (f_record f) = Verified
        \<and> m_codes (snd (verifyCode_finish now c method found m))
            = m_codes (update_code (f_id f) (flag_repeat now (f_record f)) m))
   \<or> (\<exists>f. found = Some f \<and> cd_status (f_record f) \<noteq> Verified
        \<and> cd_status (f_record f) \<noteq> Flagged
        \<and> m_codes (snd (verifyCode_finish now c method found m))
            = m_codes (update_code (f_id f) (mark_first now method) m))"
proof (cases found)
  case None
  then show ?thesis by (simp add: verifyCode_finish_def)
next
  case (Some f)
  consider (verified) "cd_status (f_record f) = Verified"
    | (flagged) "cd_status (f_record f) = Flagged"
    | (other) "cd_status (f_record f) \<noteq> Verified" "cd_status (f_record f) \<noteq> Flagged"
    by blast
  then show ?thesis
  proof cases
    case verified
    with Some show ?thesis
      by (simp add: verifyCode_finish_def Let_def split: option.splits)
  next
    case flagged
    with Some show ?thesis
      by (simp add: verifyCode_finish_def Let_def split: option.splits)
  next
    case other
    with Some show ?thesis
      by (simp add: verifyCode_finish_def Let_def split: option.splits)
  qed
qed

lemma doc_moves_refl [simp]: "doc_moves x x"
  by (simp add: doc_moves_def)

lemma verifyCode_finish_moves:
  "list_all2 doc_moves (m_codes m) (m_codes (snd (verifyCode_finish now c method found m)))"
proof -
  have "list_all2 doc_moves (m_codes m) (m_codes (update_code i (flag_repeat now rec) m))" for i rec
    by (rule update_code_rel) (simp_all add: doc_moves_def flag_repeat_def)
  moreover have "list_all2 doc_moves (m_codes m) (m_codes (update_code i (mark_first now method) m))"
    for i
    by (rule update_code_rel) (simp_all add: doc_moves_def mark_first_def)
  moreover have "list_all2 doc_moves (m_codes m) (m_codes m)"
    by (simp add: list_all2_refl)
  ultimately show ?thesis
    using verifyCode_finish_codes [of now c "method" found m] by metis
qed

lemma verifyCode_lookup_Some:
  "verifyCode_lookup c m = Some f
   \<Longrightarrow> f_id f < length (m_codes m) \<and> m_codes m ! f_id f = f_record f"
  by (auto simp: verifyCode_lookup_def findOne_def split: option.splits dest: first_code_Some)

lemma flags_refl: "list_all2 stays_or_flags xs xs"
  by (simp add: list_all2_refl stays_or_flags_def)

lemma verifyCode_moves:
  "list_all2 stays_or_flags (m_codes m) (m_codes (snd (verifyCode now c method m)))"
proof (cases "c = [] \<or> length c < 8")
  case True
  then show ?thesis by (simp add: verifyCode_def flags_refl)
next
  case False
  let ?found = "verifyCode_lookup c m"
  have repeat: "list_all2 stays_or_flags (m_codes m)
      (m_codes (update_code (f_id f) (flag_repeat now (f_record f)) m))"
    if "?found = Some f" "cd_status (f_record f) = Verified" for f
    using that verifyCode_lookup_Some [OF that(1)]
    by (intro update_code_rel) (simp_all add: stays_or_flags_def flag_repeat_def)
  have first: "list_all2 stays_or_flags (m_codes m)
      (m_codes (update_code (f_id f) (mark_first now method) m))"
    if "?found = Some f" "cd_status (f_record f) \<noteq> Verified" "cd_status (f_record f) \<noteq> Flagged"
    for f
    using that verifyCode_lookup_Some [OF that(1)]
    by (intro update_code_rel) (simp_all add: stays_or_flags_def mark_first_def)
  from verifyCode_finish_codes [of now c "method" ?found m] repeat first flags_refl [of "m_codes m"]
  have "list_all2 stays_or_flags (m_codes m)
      (m_codes (snd (verifyCode_finish now c method ?found m)))"
    by metis
  with False show ?thesis
    by (simp add: verifyCode_def)
qed

lemma flagCode_moves:
  "list_all2 (\<lambda>r r'. r' = r \<or> r' = r\<lparr>cd_status := Flagged\<rparr>)
     (m_codes m) (m_codes (snd (flagCode c user m)))"
proof (cases "first_code (\<lambda>doc. cd_code doc = c \<and> cd_manufacturerId doc = user) m")
  case None
  then show ?thesis by (simp add: flagCode_def list_all2_refl)
next
  case (Some p)
  obtain i doc where p: "p = (i, doc)" by (cases p)
  have "list_all2 (\<lambda>r r'. r' = r \<or> r' = r\<lparr>cd_status := Flagged\<rparr>) (m_codes m)
      (m_codes (update_code i (\<lambda>x. x\<lparr>cd_status := Flagged\<rparr>) m))"
    by (rule update_code_rel) simp_all
  with Some p show ?thesis
    by (simp add: flagCode_def)
qed

lemma markCodeAsVerified_moves:
  "list_all2
     (\<lambda>r r'. r' = r
        \<or> (cd_status r = Active
            \<and> r' = r\<lparr>cd_status := Verified, cd_verifiedAt := Some now,
                      cd_verificationMethod := Some meth,
                      cd_verificationCount := cd_verificationCount r + 1\<rparr>))
     (m_codes m) (m_codes (snd (markCodeAsVerified now c meth m)))"
proof (cases "first_code (\<lambda>doc. cd_code doc = c \<and> cd_status doc = Active) m")
  case None
  then show ?thesis by (simp add: markCodeAsVerified_def list_all2_refl)
next
  case (Some p)
  obtain i doc where p: "p = (i, doc)" by (cases p)
  from first_code_Some [OF Some [unfolded p]]
  have act: "cd_status (m_codes m ! i) = Active"
    by simp
  have "list_all2
     (\<lambda>r r'. r' = r
        \<or> (cd_status r = Active
            \<and> r' = r\<lparr>cd_status := Verified, cd_verifiedAt := Some now,
                      cd_verificationMethod := Some meth,
                      cd_verificationCount := cd_verificationCount r + 1\<rparr>))
     (m_codes m)
     (m_codes (update_code i
        (\<lambda>x. x\<lparr>cd_status := Verified, cd_verifiedAt := Some now,
                cd_verificationMethod := Some meth,
                cd_verificationCount := cd_verificationCount x + 1\<rparr>) m))"
    using act by (intro update_code_rel) simp_all
  with Some p show ?thesis
    by (simp add: markCodeAsVerified_def)
qed

lemma workflow_finish_moves:
  "list_all2
     (\<lambda>r r'. r' = r
        \<or> (cd_status r = Active
            \<and> r' = r\<lparr>cd_status := Verified, cd_verifiedAt := Some now,
                      cd_verificationMethod := Some meth,
                      cd_verificationCount := cd_verificationCount r + 1\<rparr>))
     (m_codes m) (m_codes (snd (executeVerificationWorkflow_finish now c meth codeRecord m)))"
  using markCodeAsVerified_moves [where now = now and meth = meth and m = m and c = c]
  by (auto simp: executeVerificationWorkflow_finish_def list_all2_refl split: prod.splits)

lemma workflow_moves:
  "list_all2
     (\<lambda>r r'. r' = r
        \<or> (cd_status r = Active
            \<and> r' = r\<lparr>cd_status := Verified, cd_verifiedAt := Some now,
                      cd_verificationMethod := Some meth,
                      cd_verificationCount := cd_verificationCount r + 1\<rparr>))
     (m_codes m) (m_codes (snd (executeVerificationWorkflow now c meth m)))"
  using workflow_finish_moves [where now = now and meth = meth and m = m]
  by (simp add: executeVerificationWorkflow_def list_all2_refl split: option.splits)

text \<open>
  Two more ways in which a used code is changed on the document store. \<^verbatim>\<open>flagCode\<close>
  sets a verified code to flagged. And when a first scan has read a code that is still
  active, and another first scan then verifies it at time 5, the writes of the first one
  at time 9 stamp the verified code again.
\<close>

lemma flagCode_changes_used_code:
  "map cd_status (m_codes scanned_store) = [Verified]
   \<and> fst (fst (flagCode ''ABCDEFGHJKLM'' 0 scanned_store)) = 200
   \<and> map cd_status (m_codes (snd (flagCode ''ABCDEFGHJKLM'' 0 scanned_store))) = [Flagged]"
  by code_simp

lemma stale_first_scan_restamps_used_code:
  "map (\<lambda>r. (cd_status r, cd_verifiedAt r, cd_verificationMethod r))
     (m_codes (snd (verifyCode 5 ''ABCDEFGHJKLM'' ''qr'' fresh_store)))
     = [(Verified, Some 5, Some ''qr'')]
   \<and> map (\<lambda>r. (cd_status r, cd_verifiedAt r, cd_verificationMethod r))
       (m_codes (snd (verifyCode_finish 9 ''ABCDEFGHJKLM'' ''sms''
          (verifyCode_lookup ''ABCDEFGHJKLM'' fresh_store)
          (snd (verifyCode 5 ''ABCDEFGHJKLM'' ''qr'' fresh_store)))))
     = [(Verified, Some 9, Some ''sms'')]"
  by code_simp

subsection \<open>Progress writes\<close>

lemma many_codes_length: "length many_codes = 1800"
  by (simp add: many_codes_def chars_def)

lemma many_codes_distinct: "distinct many_codes"
proof -
  have "distinct (take 30 chars)"
    by (simp add: chars_def)
  then have "distinct (List.product ''AB'' (List.product (take 30 chars) (take 30 chars)))"
    by (intro distinct_product) simp_all
  moreover have "inj (\<lambda>(a, b, c). a # b # c # ''AAAAAAAAA'')"
    by (auto simp: inj_on_def)
  then have "inj_on (\<lambda>(a, b, c). a # b # c # ''AAAAAAAAA'')
      (set (List.product ''AB'' (List.product (take 30 chars) (take 30 chars))))"
    by (rule inj_on_subset) simp
  ultimately show ?thesis
    unfolding many_codes_def distinct_map by (rule conjI)
qed

lemma buildRecords_codes [simp]: "map c_code (buildRecords cs i u) = cs"
  by (simp add: buildRecords_def comp_def)

lemma many_chunks:
  "chunks_of CHUNK_SIZE (buildRecords many_codes 0 7)
   = [take 1000 (buildRecords many_codes 0 7), drop 1000 (buildRecords many_codes 0 7)]"
proof -
  let ?rs = "buildRecords many_codes 0 7"
  have len: "length ?rs = 1800"
    by (simp add: many_codes_length)
  have len2: "length (drop 1000 ?rs) = 800"
    unfolding length_drop len by simp
  have ne: "?rs \<noteq> []" "drop 1000 ?rs \<noteq> []"
    using len len2 by (metis length_0_conv zero_neq_numeral)+
  have "chunks_of 1000 ?rs = take 1000 ?rs # chunks_of 1000 (drop 1000 ?rs)"
    using ne by (simp add: chunks_of.simps [of 1000 ?rs])
  also have "chunks_of 1000 (drop 1000 ?rs) = [take 1000 (drop 1000 ?rs)]"
    using ne len by (simp add: chunks_of.simps [of 1000 "drop 1000 ?rs"] chunks_of.simps [of 1000 "[]"])
  also have "take 1000 (drop 1000 ?rs) = drop 1000 ?rs"
    using len by simp
  finally show ?thesis
    by (simp add: CHUNK_SIZE_def)
qed

lemma codes_insert_fresh:
  assumes "distinct (map c_code rows)"
    and "set (map c_code (codes d)) \<inter> set (map c_code rows) = {}"
  shows "codes_insert False rows d = (False, adds d rows)"
proof -
  from assms(2) have "\<not> list_ex (\<lambda>r. c_code r \<in> set (map c_code (codes d))) rows"
    by (auto simp: list_ex_iff)
  with assms(1) show ?thesis
    by (simp add: codes_insert_def adds_def)
qed


lemma progress_written':
  "list_all (\<lambda>b. b_id b = i \<longrightarrow> b_codes_generated b = n)
     (map (\<lambda>b. if b_id b = i then b\<lparr>b_codes_generated := n, b_status := st\<rparr> else b) xs)"
  by (induction xs) simp_all

lemma update_batch_sets:
  "\<not> f \<Longrightarrow> list_all (\<lambda>b. b_id b = i \<longrightarrow> b_codes_generated b = n)
      (batches (update_batch f i n st d))"
  by (simp add: update_batch_def progress_written')

lemma chunk_stores_keep_batches:
  "list_all (\<lambda>d'. batches d' = batches d) (map snd (insert_chunks fs cs d))"
  using insert_chunks_batches [of d fs cs] by (simp add: list_all_iff)

lemma process_batch_progress:
  assumes run: "process_batch e batch d = Some (res, tr)"
  shows "list_all (\<lambda>d'. batches d' = batches d) (butlast tr)
    \<and> tr_generated res = length (codes (final d tr)) - length (codes d)
    \<and> (\<not> be_update_fault e \<longrightarrow>
         list_all (\<lambda>b. b_id b = b_id batch \<longrightarrow>
                       b_codes_generated b = b_codes_generated batch + tr_generated res)
           (batches (final d tr)))"
proof -
  let ?n = "min CODES_PER_RUN (b_quantity batch - b_codes_generated batch)"
  from run obtain cs rest where gen: "generateCodes ?n (be_entropy e) = Some (cs, rest)"
    by (auto simp: process_batch_def Let_def split: option.splits)
  let ?records = "buildRecords cs (b_id batch) (b_manufacturer_id batch)"
  let ?tr = "insert_chunks (be_chunk_faults e) (chunks_of CHUNK_SIZE ?records) d"
  from insert_chunks_effect [of d "be_chunk_faults e" "chunks_of CHUNK_SIZE ?records"]
  obtain new where fin: "final d (map snd ?tr) = adds d new"
    and len: "sum_list (map fst ?tr) = length new"
    by auto
  let ?total = "b_codes_generated batch + length new"
  let ?st = "if ?total \<ge> b_quantity batch then Complete else Generating"
  let ?d2 = "update_batch (be_update_fault e) (b_id batch) ?total ?st (adds d new)"
  from run gen fin len have tr: "tr = map snd ?tr @ [?d2]" and res: "tr_generated res = length new"
    by (auto simp: process_batch_def Let_def)
  have "butlast tr = map snd ?tr"
    unfolding tr by simp
  moreover have "codes (final d tr) = codes d @ new"
    unfolding tr by simp
  moreover have "final d tr = ?d2"
    unfolding tr by simp
  ultimately show ?thesis
    using res chunk_stores_keep_batches [of d "be_chunk_faults e" "chunks_of CHUNK_SIZE ?records"]
      update_batch_sets [of "be_update_fault e" "b_id batch" ?total ?st "adds d new"]
    by simp
qed

lemma createBatch_generate_progress:
  assumes run: "createBatch_generate e u cb qty bid batch d = (Some resp, tr)"
  shows "list_all (\<lambda>d'. batches d' = batches d) (butlast tr)
    \<and> (\<not> ce_update_fault e \<longrightarrow>
         list_all (\<lambda>b. b_id b = b_id batch \<longrightarrow>
                       b_codes_generated b = length (codes (final d tr)) - length (codes d))
           (batches (final d tr)))"
proof -
  from run obtain cs rest where gen: "generateCodes (min qty SYNC_LIMIT) (ce_entropy e) = Some (cs, rest)"
    by (auto simp: createBatch_generate_def Let_def split: option.splits)
  let ?records = "buildRecords cs (b_id batch) u"
  let ?tr = "insert_chunks (ce_chunk_faults e) (chunks_of CHUNK_SIZE ?records) d"
  from insert_chunks_effect [of d "ce_chunk_faults e" "chunks_of CHUNK_SIZE ?records"]
  obtain new where fin: "final d (map snd ?tr) = adds d new"
    and len: "sum_list (map fst ?tr) = length new"
    by auto
  let ?st = "if length new \<ge> qty then Complete else Generating"
  let ?d2 = "update_batch (ce_update_fault e) (b_id batch) (length new) ?st (adds d new)"
  from run gen fin len have tr: "tr = map snd ?tr @ [?d2]"
    by (auto simp: createBatch_generate_def Let_def)
  have "butlast tr = map snd ?tr"
    unfolding tr by simp
  moreover have "codes (final d tr) = codes d @ new"
    unfolding tr by simp
  moreover have "final d tr = ?d2"
    unfolding tr by simp
  ultimately show ?thesis
    using chunk_stores_keep_batches [of d "ce_chunk_faults e" "chunks_of CHUNK_SIZE ?records"]
      update_batch_sets [of "ce_update_fault e" "b_id batch" "length new" ?st "adds d new"]
    by simp
qed


subsection \<open>Every generated code\<close>

lemma randomBytes_length: "randomBytes n src = Some (bytes, src') \<Longrightarrow> length bytes = n"
  by (auto simp: randomBytes_def split: if_splits)

lemma set_add_all: "list_all P s \<Longrightarrow> P x \<Longrightarrow> list_all P (set_add s x)"
  by (simp add: set_add_def)

lemma generateCodes_loop_all:
  assumes "\<And>bytes. length bytes = 12 \<Longrightarrow> P (codeOfBytes bytes)"
  shows "generateCodes_loop qty s src = Some (cs, rest) \<Longrightarrow> list_all P s \<Longrightarrow> list_all P cs"
proof (induction qty s src rule: generateCodes_loop.induct)
  case (1 qty s src)
  show ?case
  proof (cases "length s < qty")
    case False
    with "1.prems" show ?thesis
      by (simp add: generateCodes_loop.simps [of qty s src])
  next
    case True
    with "1.prems"(1) obtain bytes src' where rb: "randomBytes 12 src = Some (bytes, src')"
      and rec: "generateCodes_loop qty (set_add s (codeOfBytes bytes)) src' = Some (cs, rest)"
      by (auto simp: generateCodes_loop.simps [of qty s src] split: option.splits)
    from randomBytes_length [OF rb] have "P (codeOfBytes bytes)"
      by (rule assms)
    with "1.prems"(2) have "list_all P (set_add s (codeOfBytes bytes))"
      by (rule set_add_all)
    with "1.IH" [OF True rb refl rec] show ?thesis .
  qed
qed

section \<open>The alphabet of generated codes\<close>

text \<open>
  C5. The spec lets every one of the 32 symbols of the alphabet appear in a generated
  code. \<open>generateCodes\<close> of the create-batch and scheduled functions reduces each byte
  modulo 30, not modulo the length of the alphabet: its codes have one symbol per byte,
  all from the alphabet, but no byte value maps to the last two symbols, 8 and 9, and no
  code it returns contains them.
\<close>

theorem generateCodes_never_8_or_9:
  "length (codeOfBytes bytes) = length bytes
   \<and> CHR ''8'' \<notin> set (codeOfBytes bytes) \<and> CHR ''9'' \<notin> set (codeOfBytes bytes)
   \<and> (case generateCodes qty src of
         None \<Rightarrow> True
       | Some (cs, rest) \<Rightarrow>
           list_all (\<lambda>c. length c = 12 \<and> CHR ''8'' \<notin> set c \<and> CHR ''9'' \<notin> set c) cs)"
proof -
  have "chars ! (unat b mod 30) \<noteq> CHR ''8'' \<and> chars ! (unat b mod 30) \<noteq> CHR ''9''" for b :: byte
    by (rule first30_no_8_9) simp
  then have "CHR ''8'' \<noteq> chars ! (unat b mod 30) \<and> CHR ''9'' \<noteq> chars ! (unat b mod 30)"
    for b :: byte
    by metis
  then have one: "length (codeOfBytes bs) = length bs
      \<and> CHR ''8'' \<notin> set (codeOfBytes bs) \<and> CHR ''9'' \<notin> set (codeOfBytes bs)" for bs
    by (simp add: codeOfBytes_def image_iff)
  have "list_all (\<lambda>c. length c = 12 \<and> CHR ''8'' \<notin> set c \<and> CHR ''9'' \<notin> set c) cs"
    if "generateCodes qty src = Some (cs, rest)" for cs rest
    using that [unfolded generateCodes_def]
    by (rule generateCodes_loop_all [rotated]) (simp_all add: one)
  with one [of bytes] show ?thesis
    by (auto split: option.splits)
qed

section \<open>Verification: what the handler returns\<close>

text \<open>
  C1. The spec turns a lost race into \<open>Duplicate\<close>. The handler does not read the number
  of rows its conditional update changed. Here the record was read while the code was
  fresh (\<open>race_db0\<close>), another call then verified the code, and the update of this call
  changes no row: the call still answers \<open>Success\<close> and logs \<open>Success\<close>.
\<close>

theorem verify_lost_race_answers_success:
  "lookup_code False race_code race_db0 = Some (hd (codes race_db0), Some (hd (batches race_db0)))
   \<and> c_status (hd (codes race_db0)) = Active
   \<and> fst (snd (codes_update_if_active False race_code 5 (snd (verify race_env race_req race_db0)))) = 0
   \<and> outcome (fst (verify_active race_env race_req race_code
         (hd (codes race_db0), Some (hd (batches race_db0)))
         (snd (verify race_env race_req race_db0)))) = Some Success
   \<and> map v_result (verifications (snd (verify_active race_env race_req race_code
         (hd (codes race_db0), Some (hd (batches race_db0)))
         (snd (verify race_env race_req race_db0))))) = [Success, Success]"
  by code_simp

text \<open>
  C2. Two concurrent calls for one fresh code, both reading before either writes: both
  return \<open>Success\<close>, none returns \<open>Duplicate\<close>, and the log holds two \<open>Success\<close> rows.
  The code ends verified.
\<close>

theorem concurrent_verify_two_successes:
  "(case run_schedule race_env race_req race_code [0, 1, 0, 1] ([Waiting, Waiting], race_db0) of
      (calls, d) \<Rightarrow>
        length (filter (returned_with Success) calls) = 2
        \<and> length (filter (returned_with Duplicate) calls) = 0
        \<and> map v_result (verifications d) = [Success, Success]
        \<and> map c_status (codes d) = [Verified])"
  by code_simp

text \<open>
  C9. When the conditional update returns a storage error, the handler prints it and goes
  on: the response is the success response, the log row (if its insert goes through) says
  \<open>Success\<close>, and the codes table is as it was, so the code is still not verified.
\<close>

theorem verify_update_error_still_success:
  assumes "vr_method r = GET \<or> vr_method r = POST"
    and "requested_code r = BodyCode s"
    and "s \<noteq> []"
    and "lookup_code (ve_lookup_fault e) (toUpperCase (trim s)) d = Some rec"
    and "c_status (fst rec) \<noteq> Verified"
    and "ve_update_fault e"
  shows "statusCode (fst (verify e r d)) = 200
    \<and> outcome (fst (verify e r d)) = Some Success
    \<and> codes (snd (verify e r d)) = codes d
    \<and> verifications (snd (verify e r d)) =
        (if ve_log_fault e then verifications d
         else verifications d @ [log_row r e (toUpperCase (trim s)) Success (Some (fst rec))])"
  using assms
  by (auto simp: verify_def verify_finish_def verify_active_def codes_update_if_active_def
      verifications_insert_def outcome_def respond_def)

theorem verify_update_error_still_success_witness:
  "outcome (fst (verify (race_env\<lparr>ve_update_fault := True\<rparr>) race_req race_db0)) = Some Success
   \<and> map c_status (codes (snd (verify (race_env\<lparr>ve_update_fault := True\<rparr>) race_req race_db0))) = [Active]
   \<and> map v_result (verifications (snd (verify (race_env\<lparr>ve_update_fault := True\<rparr>) race_req race_db0)))
       = [Success]"
proof -
  let ?e = "race_env\<lparr>ve_update_fault := True\<rparr>"
  let ?rec = "(hd (codes race_db0), Some (hd (batches race_db0)))"
  have h1: "vr_method race_req = GET \<or> vr_method race_req = POST"
    by (simp add: race_req_def)
  have h2: "requested_code race_req = BodyCode race_code"
    by (simp add: race_req_def requested_code_def)
  have h3: "race_code \<noteq> []"
    by (simp add: race_code_def)
  have h4: "lookup_code (ve_lookup_fault ?e) (toUpperCase (trim race_code)) race_db0 = Some ?rec"
    by code_simp
  have h5: "c_status (fst ?rec) \<noteq> Verified"
    by (simp add: race_db0_def)
  have h6: "ve_update_fault ?e"
    by simp
  have log: "ve_log_fault ?e = False"
    by (simp add: race_env_def)
  show ?thesis
    using verify_update_error_still_success [OF h1 h2 h3 h4 h5 h6]
    by (simp add: log race_db0_def log_row_def)
qed

section \<open>Invariants of every run\<close>

text \<open>
  C4. In every store reached from the empty one by batch creations of either kind,
  scheduler runs and verifications, no two code rows share a value. The constraint of
  the store rejects every insert that would repeat one.
\<close>

theorem codes_globally_distinct:
  "distinct (map c_code (codes (run evs empty_db)))"
  using run_inv [OF store_inv_empty, of evs] by (simp add: store_inv_def codes_distinct_def)




text \<open>
  C8. Once a batch is complete, any number of scheduler runs leaves its row (count and
  status) as it is and adds no code to it.
\<close>

theorem scheduler_idempotent_after_complete:
  assumes "b \<in> set (batches (run evs empty_db))" and "b_status b = Complete"
  shows "batches (run (map ScheduledGeneration ticks) (run evs empty_db)) ! b_id b = b
    \<and> codes_of_batch (b_id b) (run (map ScheduledGeneration ticks) (run evs empty_db))
        = codes_of_batch (b_id b) (run evs empty_db)"
proof -
  let ?d = "run evs empty_db"
  let ?d' = "run (map ScheduledGeneration ticks) ?d"
  have inv: "store_inv ?d"
    using store_inv_empty by (rule run_inv)
  from ticks_keep_complete [OF inv assms, of ticks]
  have b: "b \<in> set (batches ?d')"
    and c: "codes_of_batch (b_id b) ?d' = codes_of_batch (b_id b) ?d"
    by blast+
  have "store_inv ?d'"
    using inv by (rule run_inv)
  then have "ids_ok ?d'"
    by (simp add: store_inv_def)
  from ids_ok_member [OF this b] c show ?thesis
    by simp
qed

lemma demo_run: "run [CreateBatch demo_create_env demo_create_req] empty_db =
  \<lparr>codes = [\<lparr>c_code = ''ABCDEFGHJKLM'', c_batch_id = 0, c_manufacturer_id = 7, c_status = Active,
             c_verified_at = None, c_verification_method = None\<rparr>],
   batches = [demo_batch], verifications = []\<rparr>"
  by code_simp

theorem scheduler_idempotent_after_complete_witness:
  "batches (run (map ScheduledGeneration [demo_tick_env, demo_tick_env])
      (run [CreateBatch demo_create_env demo_create_req] empty_db)) ! 0 = demo_batch
   \<and> length (codes_of_batch 0 (run (map ScheduledGeneration [demo_tick_env, demo_tick_env])
      (run [CreateBatch demo_create_env demo_create_req] empty_db))) = 1"
proof -
  let ?d = "run [CreateBatch demo_create_env demo_create_req] empty_db"
  let ?d' = "run (map ScheduledGeneration [demo_tick_env, demo_tick_env]) ?d"
  have h1: "demo_batch \<in> set (batches ?d)"
    unfolding demo_run by simp
  have h2: "b_status demo_batch = Complete"
    by (simp add: demo_batch_def)
  have id: "b_id demo_batch = 0"
    by (simp add: demo_batch_def)
  have before: "length (codes_of_batch 0 ?d) = 1"
    unfolding demo_run by (simp add: codes_of_batch_def)
  note kept = scheduler_idempotent_after_complete [OF h1 h2, of "[demo_tick_env, demo_tick_env]",
      unfolded id]
  from kept have "batches ?d' ! 0 = demo_batch"
    by (rule conjunct1)
  moreover from kept have "codes_of_batch 0 ?d' = codes_of_batch 0 ?d"
    by (rule conjunct2)
  ultimately show ?thesis
    using before by (simp only:)
qed


section \<open>The response of batch creation\<close>




section \<open>What changes a code\<close>

text \<open>
  C3. The spec makes the used state terminal: no operation changes a code that is
  already used. The earlier workflow \<open>verifyCode\<close> does, on purpose: a repeat scan of a
  verified code sets its status to flagged, raises its verification count and stamps the
  attempt.
\<close>

theorem used_code_changed_by_repeat_scan:
  "map cd_status (m_codes scanned_store) = [Verified]
   \<and> r_result (projr (fst (verifyCode 9 ''ABCDEFGHJKLM'' ''qr'' scanned_store))) = Duplicate
   \<and> map cd_status (m_codes (snd (verifyCode 9 ''ABCDEFGHJKLM'' ''qr'' scanned_store))) = [Flagged]
   \<and> map cd_verificationCount (m_codes (snd (verifyCode 9 ''ABCDEFGHJKLM'' ''qr'' scanned_store))) = [2]
   \<and> map cd_lastVerificationAttempt (m_codes (snd (verifyCode 9 ''ABCDEFGHJKLM'' ''qr'' scanned_store)))
       = [Some 9]"
  by code_simp

text \<open>
  C3, as the code has it. On the relational store, batch creation of either kind and
  scheduler runs only append code rows. The verification function changes code rows by
  its conditional update alone, whatever record it read before: every row stays as it is,
  or was active and is verified afterwards, every field but the status, the time and the
  method of verification as before. So a row that is not active is never changed, and no
  row becomes active again. On the document store a used code is changed: a call of
  \<open>verifyCode\<close> on its own leaves a document as it is, takes it from verified to flagged,
  or from a status other than verified and flagged to verified; after a read that is out
  of date it sets the document to verified or flagged, whatever its status;
  \<open>flagCode\<close> sets the status flagged, whatever it was;
  \<open>executeVerificationWorkflow\<close>, whatever document it read, changes only an active
  code, to verified. No operation changes the code or the references of a document, and
  none sets a status to active.
\<close>

theorem code_rows_only_move_forward:
  "prefix (codes d) (codes (apply_event (CreateBatch ce cr) d))
   \<and> prefix (codes d) (codes (apply_event (CreateBatchBackground be cr) d))
   \<and> prefix (codes d) (codes (apply_event (ScheduledGeneration te) d))
   \<and> (codes (snd (verify_finish e r c looked d)) = codes d
      \<or> codes (snd (verify_finish e r c looked d))
          = codes (snd (snd (codes_update_if_active (ve_update_fault e) c (ve_now e) d))))
   \<and> list_all2 stays_or_verifies (codes d) (codes (snd (verify_finish e r c looked d)))
   \<and> list_all2 stays_or_verifies (codes d) (codes (apply_event (Verify e r) d))
   \<and> list_all2 stays_or_flags (m_codes m) (m_codes (snd (verifyCode now c' meth m)))
   \<and> list_all2 doc_moves (m_codes m) (m_codes (snd (verifyCode_finish now c' meth found m)))
   \<and> list_all2 (\<lambda>x x'. x' = x \<or> x' = x\<lparr>cd_status := Flagged\<rparr>)
       (m_codes m) (m_codes (snd (flagCode c' user m)))
   \<and> list_all2
       (\<lambda>x x'. x' = x
          \<or> (cd_status x = Active
              \<and> x' = x\<lparr>cd_status := Verified, cd_verifiedAt := Some now,
                        cd_verificationMethod := Some meth,
                        cd_verificationCount := cd_verificationCount x + 1\<rparr>))
       (m_codes m)
       (m_codes (snd (executeVerificationWorkflow_finish now c' meth codeRecord m)))
   \<and> list_all2
       (\<lambda>x x'. x' = x
          \<or> (cd_status x = Active
              \<and> x' = x\<lparr>cd_status := Verified, cd_verifiedAt := Some now,
                        cd_verificationMethod := Some meth,
                        cd_verificationCount := cd_verificationCount x + 1\<rparr>))
       (m_codes m) (m_codes (snd (executeVerificationWorkflow now c' meth m)))"
proof -
  have "prefix (codes d) (codes (apply_event (CreateBatch ce cr) d))"
    by (simp add: createBatch_prefix)
  moreover have "prefix (codes d) (codes (apply_event (CreateBatchBackground be cr) d))"
    by (simp add: createBatchBackground_prefix)
  moreover have "prefix (codes d) (codes (apply_event (ScheduledGeneration te) d))"
    by (simp add: scheduledGeneration_prefix)
  moreover have "list_all2 stays_or_verifies (codes d) (codes (apply_event (Verify e r) d))"
    by (simp add: verify_moves)
  moreover note verify_finish_codes [of e r c looked d] verify_finish_moves [of d e r c looked]
    verifyCode_moves [of m now c' meth] verifyCode_finish_moves [of m now c' meth found]
    flagCode_moves [of m c' user]
    workflow_finish_moves [where now = now and meth = meth and m = m and c = c'
      and codeRecord = codeRecord]
    workflow_moves [where now = now and meth = meth and m = m and c = c']
  ultimately show ?thesis
    by (intro conjI)
qed

theorem code_rows_only_move_forward_witness:
  "map c_status (codes (apply_event (Verify race_env race_req) race_db0)) = [Verified]
   \<and> map c_status (codes (apply_event (Verify race_env race_req)
         (apply_event (Verify race_env race_req) race_db0))) = [Verified]
   \<and> list_all2 stays_or_verifies
         (codes (apply_event (Verify race_env race_req) race_db0))
         (codes (apply_event (Verify race_env race_req)
            (apply_event (Verify race_env race_req) race_db0)))
   \<and> list_all2 stays_or_flags (m_codes scanned_store)
         (m_codes (snd (verifyCode 9 ''ABCDEFGHJKLM'' ''qr'' scanned_store)))"
proof -
  have "map c_status (codes (apply_event (Verify race_env race_req) race_db0)) = [Verified]"
    by code_simp
  moreover have "map c_status (codes (apply_event (Verify race_env race_req)
         (apply_event (Verify race_env race_req) race_db0))) = [Verified]"
    by code_simp
  ultimately show ?thesis
    using code_rows_only_move_forward [where d = "apply_event (Verify race_env race_req) race_db0"
        and e = race_env and r = race_req and m = scanned_store and now = 9
        and c' = "''ABCDEFGHJKLM''" and meth = "''qr''"]
    by blast
qed


section \<open>When progress is written\<close>

text \<open>
  C6. The spec has the stored count raised after each successful chunk write, before
  the next chunk is attempted. \<open>insertCodes\<close> is not given the batch and writes no
  count: with 1800 fresh codes its first chunk of 1000 is stored, the batch still says 0,
  and the second chunk of 800 is inserted on that store.
\<close>

theorem count_not_written_between_chunks:
  "map fst (insert_chunks [] (chunks_of CHUNK_SIZE (buildRecords many_codes 0 7)) pending_db)
     = [1000, 800]
   \<and> length (codes (snd (insert_chunks [] (chunks_of CHUNK_SIZE (buildRecords many_codes 0 7))
         pending_db ! 0))) = 1000
   \<and> map b_codes_generated (batches (snd (insert_chunks []
         (chunks_of CHUNK_SIZE (buildRecords many_codes 0 7)) pending_db ! 0))) = [0]"
proof -
  let ?rs = "buildRecords many_codes 0 7"
  have len: "length ?rs = 1800"
    by (simp add: many_codes_length)
  have d: "distinct (map c_code ?rs)"
    by (simp add: many_codes_distinct)
  then have "distinct (map c_code (take 1000 ?rs @ drop 1000 ?rs))"
    by simp
  then have d1: "distinct (map c_code (take 1000 ?rs))"
    and d2: "distinct (map c_code (drop 1000 ?rs))"
    and disj: "set (map c_code (take 1000 ?rs)) \<inter> set (map c_code (drop 1000 ?rs)) = {}"
    unfolding map_append distinct_append by blast+
  have first: "codes_insert False (take 1000 ?rs) pending_db = (False, adds pending_db (take 1000 ?rs))"
    using d1 by (intro codes_insert_fresh) (simp_all add: pending_db_def)
  have second: "codes_insert False (drop 1000 ?rs) (adds pending_db (take 1000 ?rs))
      = (False, adds (adds pending_db (take 1000 ?rs)) (drop 1000 ?rs))"
    using d2 disj by (intro codes_insert_fresh) (simp_all add: pending_db_def)
  have tr: "insert_chunks [] (chunks_of CHUNK_SIZE ?rs) pending_db
      = [(1000, adds pending_db (take 1000 ?rs)),
         (800, adds (adds pending_db (take 1000 ?rs)) (drop 1000 ?rs))]"
    unfolding many_chunks using first second len by (simp add: next_fault_def)
  show ?thesis
    unfolding tr using len by (simp add: pending_db_def)
qed


text \<open>
  C6, as the code has it. In the background generation, at the end of every pass that
  inserted its sub-chunk and whose progress update went through (that is, before the
  next sub-chunk is attempted), the stored \<^verbatim>\<open>codes_generated\<close> of the batch is the
  running total, which is the number of rows added since the generation started. In the
  scheduler's loop body and in the create-batch function, the stores after the chunk
  writes all carry the batch table as it was; the count is written by the last write
  alone, as the count read at the start (0 at creation) plus the number of rows added.
\<close>

theorem progress_written_per_pass_or_per_run:
  "list_all (pass_counts d (b_id batch))
     (s_passes (fst (generateCodesInBackground be batch q u d)))
   \<and> (process_batch te batch d = Some (res, tr) \<longrightarrow>
        list_all (\<lambda>d'. batches d' = batches d) (butlast tr)
        \<and> tr_generated res = length (codes (final d tr)) - length (codes d)
        \<and> (\<not> be_update_fault te \<longrightarrow>
             list_all (\<lambda>b. b_id b = b_id batch \<longrightarrow>
                           b_codes_generated b = b_codes_generated batch + tr_generated res)
               (batches (final d tr))))
   \<and> (createBatch_generate ce u cb qty bid batch d = (Some resp, tr') \<longrightarrow>
        list_all (\<lambda>d'. batches d' = batches d) (butlast tr')
        \<and> (\<not> ce_update_fault ce \<longrightarrow>
             list_all (\<lambda>b. b_id b = b_id batch \<longrightarrow>
                           b_codes_generated b = length (codes (final d tr')) - length (codes d))
               (batches (final d tr'))))"
proof -
  have "list_all (pass_counts d (b_id batch))
      (s_passes (fst (generateCodesInBackground be batch q u d)))"
    using generateCodesInBackground_frame [of d batch be q u] unfolding bg_frame_def by blast
  then show ?thesis
    using process_batch_progress [of te batch d res tr]
      createBatch_generate_progress [of ce u cb qty bid batch d resp tr']
    by blast
qed


theorem progress_written_per_pass_or_per_run_witness:
  "map p_total (s_passes (fst (generateCodesInBackground demo_bg_env
       (hd (batches one_pending_db)) 1 7 one_pending_db))) = [1]
   \<and> list_all (pass_counts one_pending_db 0)
       (s_passes (fst (generateCodesInBackground demo_bg_env
          (hd (batches one_pending_db)) 1 7 one_pending_db)))
   \<and> length (snd tick_outcome) = 2
   \<and> list_all (\<lambda>d'. batches d' = batches one_pending_db) (butlast (snd tick_outcome))
   \<and> map b_codes_generated (batches (final one_pending_db (snd tick_outcome))) = [1]
   \<and> length (snd create_outcome) = 2
   \<and> list_all (\<lambda>d'. batches d' = batches one_pending_db) (butlast (snd create_outcome))
   \<and> map b_codes_generated (batches (final one_pending_db (snd create_outcome))) = [1]"
proof -
  let ?b = "hd (batches one_pending_db)"
  have id: "b_id ?b = 0"
    by (simp add: one_pending_db_def)
  have h1: "process_batch demo_batch_env ?b one_pending_db = Some (fst tick_outcome, snd tick_outcome)"
    by code_simp
  have h2: "createBatch_generate demo_create_env 7 demo_body 1 ''BN1'' ?b one_pending_db
      = (Some (the (fst create_outcome)), snd create_outcome)"
    by code_simp
  have f1: "\<not> be_update_fault demo_batch_env" and f2: "\<not> ce_update_fault demo_create_env"
    by (simp_all add: demo_batch_env_def demo_create_env_def)
  have v1: "map p_total (s_passes (fst (generateCodesInBackground demo_bg_env ?b 1 7
      one_pending_db))) = [1]"
    by code_simp
  have v2: "length (snd tick_outcome) = 2"
    and v3: "map b_codes_generated (batches (final one_pending_db (snd tick_outcome))) = [1]"
    and v4: "length (snd create_outcome) = 2"
    and v5: "map b_codes_generated (batches (final one_pending_db (snd create_outcome))) = [1]"
    by code_simp+
  note th = progress_written_per_pass_or_per_run [where d = one_pending_db and batch = ?b
      and be = demo_bg_env and q = 1 and u = 7 and te = demo_batch_env
      and res = "fst tick_outcome" and tr = "snd tick_outcome" and ce = demo_create_env
      and cb = demo_body and qty = 1 and bid = "''BN1''"
      and resp = "the (fst create_outcome)" and tr' = "snd create_outcome", unfolded id]
  from th h1 h2 v1 v2 v3 v4 v5 show ?thesis
    by blast
qed


end
